theory Spec2Isabelle
  imports Main
begin

section \<open>JavaScript values\<close>

text \<open>
  The wrappers handle JSON-like data. A value is one of the JavaScript primitives, an
  error object, an array or a plain object. An object is the list of its own enumerable
  properties in the order \<^verbatim>\<open>Object.entries\<close> yields them (JavaScript lists
  integer-like names first; no property below depends on that); property names of one
  object are pairwise distinct in JavaScript. Numbers are the integer-valued ones, strings
  are lists of 8-bit characters, and prototypes and accessor properties are outside the model.
\<close>

datatype error = Error string | TypeError string | SyntaxError string

fun message :: "error \<Rightarrow> string" where
  "message (Error m) = m"
| "message (TypeError m) = m"
| "message (SyntaxError m) = m"

datatype jsval =
    JUndefined
  | JNull
  | JBool bool
  | JNum int
  | JStr string
  | JErr error
  | JArr "jsval list"
  | JObj "(string \<times> jsval) list"

text \<open>\<^verbatim>\<open>!v\<close> is false exactly for the truthy values.\<close>

fun truthy :: "jsval \<Rightarrow> bool" where
  "truthy JUndefined = False"
| "truthy JNull = False"
| "truthy (JBool b) = b"
| "truthy (JNum n) = (n \<noteq> 0)"
| "truthy (JStr s) = (s \<noteq> [])"
| "truthy (JErr e) = True"
| "truthy (JArr xs) = True"
| "truthy (JObj es) = True"

text \<open>\<^verbatim>\<open>typeof v === "object" && v !== null\<close>\<close>

fun is_object :: "jsval \<Rightarrow> bool" where
  "is_object (JErr e) = True"
| "is_object (JArr xs) = True"
| "is_object (JObj es) = True"
| "is_object v = False"

text \<open>
  \<^verbatim>\<open>k in v\<close> for a non-null object \<open>v\<close> and a name \<open>k\<close> that is neither an array
  index nor a built-in property of arrays and errors (the code asks for \<^verbatim>\<open>%allot\<close> only).
\<close>

fun has_prop :: "string \<Rightarrow> jsval \<Rightarrow> bool" where
  "has_prop k (JObj es) = (k \<in> set (map fst es))"
| "has_prop k v = False"

text \<open>
  The property read \<^verbatim>\<open>v[k]\<close>, for the same kind of name: a type error on
  \<^verbatim>\<open>undefined\<close> and \<^verbatim>\<open>null\<close>, the property's value on an object that has
  it, \<^verbatim>\<open>undefined\<close> otherwise.
\<close>

fun get_prop :: "jsval \<Rightarrow> string \<Rightarrow> error + jsval" where
  "get_prop JUndefined k = Inl (TypeError ''Cannot read properties of undefined'')"
| "get_prop JNull k = Inl (TypeError ''Cannot read properties of null'')"
| "get_prop (JObj es) k = Inr (case map_of es k of Some x \<Rightarrow> x | None \<Rightarrow> JUndefined)"
| "get_prop v k = Inr JUndefined"

text \<open>The same read on a value already known to be a non-null object.\<close>

fun prop_of :: "jsval \<Rightarrow> string \<Rightarrow> jsval" where
  "prop_of (JObj es) k = (case map_of es k of Some x \<Rightarrow> x | None \<Rightarrow> JUndefined)"
| "prop_of v k = JUndefined"

text \<open>
  The assignment \<^verbatim>\<open>o[k] = v\<close> on the property list of a plain object: an existing
  property keeps its place, a new one goes last.
\<close>

fun set_prop :: "string \<Rightarrow> 'a \<Rightarrow> (string \<times> 'a) list \<Rightarrow> (string \<times> 'a) list" where
  "set_prop k v [] = [(k, v)]"
| "set_prop k v ((k', v') # es) = (if k = k' then (k, v) # es else (k', v') # set_prop k v es)"

section \<open>The sharing primitive\<close>

text \<open>
  The package \<^verbatim>\<open>@nillion/nilql\<close> is imported by the wrapper and is not part of the
  sources: its functions are parameters of the model. Each may throw. A key and a cluster
  are JavaScript values the wrapper only stores and hands back.
\<close>

record nilql =
  SecretKey_generate :: "jsval \<Rightarrow> jsval \<Rightarrow> jsval \<Rightarrow> error + jsval"
  ClusterKey_generate :: "jsval \<Rightarrow> jsval \<Rightarrow> error + jsval"
  nilql_encrypt :: "jsval \<Rightarrow> jsval \<Rightarrow> error + jsval"
  nilql_decrypt :: "jsval \<Rightarrow> jsval \<Rightarrow> error + jsval"
  nilql_allot :: "jsval \<Rightarrow> error + jsval list"
  nilql_unify :: "jsval \<Rightarrow> jsval list \<Rightarrow> error + jsval"

section \<open>NilQLWrapper\<close>

definition KeyType_CLUSTER :: jsval where
  "KeyType_CLUSTER = JStr ''cluster''"

definition KeyType_SECRET :: jsval where
  "KeyType_SECRET = JStr ''secret''"

definition OperationType_STORE :: string where
  "OperationType_STORE = ''store''"

record NilQLWrapper =
  cluster :: jsval
  secretKey :: jsval
  secretKeySeed :: jsval
  operation :: jsval
  keyType :: jsval

text \<open>
  The constructor. A default applies where the argument is \<^verbatim>\<open>undefined\<close>; the
  operation is stored as the object \<^verbatim>\<open>{ [operation]: true }\<close>.
\<close>

definition new_NilQLWrapper ::
  "jsval \<Rightarrow> string option \<Rightarrow> jsval \<Rightarrow> jsval \<Rightarrow> jsval \<Rightarrow> NilQLWrapper" where
  "new_NilQLWrapper cl op sk seed kt =
     \<lparr> cluster = cl,
       secretKey = (if sk = JUndefined then JNull else sk),
       secretKeySeed = (if seed = JUndefined then JNull else seed),
       operation = JObj [(case op of None \<Rightarrow> OperationType_STORE | Some s \<Rightarrow> s, JBool True)],
       keyType = (if kt = JUndefined then KeyType_CLUSTER else kt) \<rparr>"

definition NotInitialized :: error where
  "NotInitialized = Error ''NilQLWrapper not initialized. Call init() first.''"

definition UnsupportedKeyType :: error where
  "UnsupportedKeyType = Error ''Unsupported key type''"

text \<open>
  \<^verbatim>\<open>init\<close> assigns \<^verbatim>\<open>this.secretKey\<close>, so it returns the wrapper as it is when the
  call ends, together with the outcome: \<open>Inl\<close> the error thrown, \<open>Inr ()\<close> a normal return.
\<close>

definition init_seed :: "nilql \<Rightarrow> NilQLWrapper \<Rightarrow> (error + unit) \<times> NilQLWrapper" where
  "init_seed L w =
     (if truthy (secretKeySeed w) \<and> secretKey w = JNull then
        (case SecretKey_generate L (cluster w) (operation w) (secretKeySeed w) of
           Inl e \<Rightarrow> (Inl e, w)
         | Inr k \<Rightarrow> (Inr (), w\<lparr>secretKey := k\<rparr>))
      else (Inr (), w))"

definition init_keyType :: "nilql \<Rightarrow> NilQLWrapper \<Rightarrow> (error + unit) \<times> NilQLWrapper" where
  "init_keyType L w =
     (if secretKey w = JNull then
        (if keyType w = KeyType_SECRET then
           (case SecretKey_generate L (cluster w) (operation w) JUndefined of
              Inl e \<Rightarrow> (Inl e, w)
            | Inr k \<Rightarrow> (Inr (), w\<lparr>secretKey := k\<rparr>))
         else if keyType w = KeyType_CLUSTER then
           (case ClusterKey_generate L (cluster w) (operation w) of
              Inl e \<Rightarrow> (Inl e, w)
            | Inr k \<Rightarrow> (Inr (), w\<lparr>secretKey := k\<rparr>))
         else (Inl UnsupportedKeyType, w))
      else (Inr (), w))"

definition init :: "nilql \<Rightarrow> NilQLWrapper \<Rightarrow> (error + unit) \<times> NilQLWrapper" where
  "init L w =
     (case init_seed L w of
        (Inl e, w') \<Rightarrow> (Inl e, w')
      | (Inr u, w') \<Rightarrow> init_keyType L w')"

definition encrypt :: "nilql \<Rightarrow> NilQLWrapper \<Rightarrow> jsval \<Rightarrow> error + jsval" where
  "encrypt L w data =
     (if \<not> truthy (secretKey w) then Inl NotInitialized
      else nilql_encrypt L (secretKey w) data)"

definition decrypt :: "nilql \<Rightarrow> NilQLWrapper \<Rightarrow> jsval \<Rightarrow> error + jsval" where
  "decrypt L w shares =
     (if \<not> truthy (secretKey w) then Inl NotInitialized
      else nilql_decrypt L (secretKey w) shares)"

definition unify :: "nilql \<Rightarrow> NilQLWrapper \<Rightarrow> jsval list \<Rightarrow> error + jsval" where
  "unify L w shares =
     (if \<not> truthy (secretKey w) then Inl NotInitialized
      else nilql_unify L (secretKey w) shares)"

text \<open>
  \<^verbatim>\<open>encryptDeep\<close>, the recursive walk of \<^verbatim>\<open>prepareAndAllot\<close>. The loop body
  (one entry of \<^verbatim>\<open>Object.entries(obj)\<close>) is \<open>encryptValue\<close>; the loop over the
  entries of an object is \<open>encryptEntries\<close>, over the elements of an array
  \<open>encryptElems\<close>. The first error thrown ends the walk.
\<close>

fun encryptDeep :: "(jsval \<Rightarrow> error + jsval) \<Rightarrow> jsval \<Rightarrow> error + jsval"
  and encryptValue :: "(jsval \<Rightarrow> error + jsval) \<Rightarrow> jsval \<Rightarrow> error + jsval"
  and encryptEntries ::
    "(jsval \<Rightarrow> error + jsval) \<Rightarrow> (string \<times> jsval) list \<Rightarrow> error + (string \<times> jsval) list"
  and encryptElems :: "(jsval \<Rightarrow> error + jsval) \<Rightarrow> jsval list \<Rightarrow> error + jsval list"
where
  "encryptDeep enc (JArr xs) =
     (case encryptElems enc xs of Inl e \<Rightarrow> Inl e | Inr ys \<Rightarrow> Inr (JArr ys))"
| "encryptDeep enc (JObj es) =
     (case encryptEntries enc es of Inl e \<Rightarrow> Inl e | Inr fs \<Rightarrow> Inr (JObj fs))"
| "encryptDeep enc (JErr e) = Inr (JObj [])"
| "encryptDeep enc JUndefined = Inr JUndefined"
| "encryptDeep enc JNull = Inr JNull"
| "encryptDeep enc (JBool b) = Inr (JBool b)"
| "encryptDeep enc (JNum n) = Inr (JNum n)"
| "encryptDeep enc (JStr s) = Inr (JStr s)"
| "encryptValue enc v =
     (if is_object v then
        (if has_prop ''%allot'' v then
           (case enc (prop_of v ''%allot'') of
              Inl e \<Rightarrow> Inl e
            | Inr c \<Rightarrow> Inr (JObj [(''%allot'', c)]))
         else encryptDeep enc v)
      else Inr v)"
| "encryptEntries enc [] = Inr []"
| "encryptEntries enc ((k, v) # es) =
     (case encryptValue enc v of
        Inl e \<Rightarrow> Inl e
      | Inr v' \<Rightarrow>
          (case encryptEntries enc es of Inl e \<Rightarrow> Inl e | Inr fs \<Rightarrow> Inr ((k, v') # fs)))"
| "encryptElems enc [] = Inr []"
| "encryptElems enc (v # xs) =
     (case encryptValue enc v of
        Inl e \<Rightarrow> Inl e
      | Inr v' \<Rightarrow>
          (case encryptElems enc xs of Inl e \<Rightarrow> Inl e | Inr ys \<Rightarrow> Inr (v' # ys)))"

definition prepareAndAllot :: "nilql \<Rightarrow> NilQLWrapper \<Rightarrow> jsval \<Rightarrow> error + jsval list" where
  "prepareAndAllot L w data =
     (if \<not> truthy (secretKey w) then Inl NotInitialized
      else
        (case encryptDeep (nilql_encrypt L (secretKey w)) data of
           Inl e \<Rightarrow> Inl e
         | Inr encryptedData \<Rightarrow> nilql_allot L encryptedData))"


section \<open>Strings, numerals and the two regular expressions of makeRequest\<close>

fun show_digits :: "nat \<Rightarrow> string" where
  "show_digits n =
     (if n < 10 then [char_of (48 + n)] else show_digits (n div 10) @ [char_of (48 + n mod 10)])"

declare show_digits.simps [simp del]

definition is_digit :: "char \<Rightarrow> bool" where
  "is_digit c = (48 \<le> (of_char c :: nat) \<and> (of_char c :: nat) \<le> 57)"

text \<open>The natural number that a string of decimal digits denotes.\<close>

definition decimal :: "string \<Rightarrow> nat" where
  "decimal ds = foldl (\<lambda>n c. 10 * n + (of_char c - 48)) 0 ds"

definition starts_with :: "string \<Rightarrow> string \<Rightarrow> bool" where
  "starts_with p s = (take (length p) s = p)"

text \<open>\<^verbatim>\<open>s.includes(sub)\<close>\<close>

fun str_includes :: "string \<Rightarrow> string \<Rightarrow> bool" where
  "str_includes [] sub = (sub = [])"
| "str_includes (c # cs) sub = (starts_with sub (c # cs) \<or> str_includes cs sub)"

text \<open>
  \<^verbatim>\<open>message.match(/status: (\d+)/)\<close>: the leftmost place where \<^verbatim>\<open>status: \<close> is
  followed by a digit; the group is the longest run of digits there.
\<close>

fun match_status :: "string \<Rightarrow> string option" where
  "match_status [] = None"
| "match_status (c # cs) =
     (if starts_with ''status: '' (c # cs) \<and> takeWhile is_digit (drop 8 (c # cs)) \<noteq> []
      then Some (takeWhile is_digit (drop 8 (c # cs)))
      else match_status cs)"

text \<open>
  \<^verbatim>\<open>message.match(/body: ({.*})/)\<close>: the leftmost place where \<^verbatim>\<open>body: {\<close> is
  followed, before the end of the line, by a closing brace; the group runs from the
  opening brace to the last closing brace of that line (\<^verbatim>\<open>.\<close> matches no line
  terminator, and \<^verbatim>\<open>.*\<close> is greedy).
\<close>

definition line_terminator :: "char \<Rightarrow> bool" where
  "line_terminator c = (c = CHR 0x0A \<or> c = CHR 0x0D)"

definition to_last_brace :: "string \<Rightarrow> string option" where
  "to_last_brace s =
     (let line = takeWhile (\<lambda>c. \<not> line_terminator c) s in
      if CHR ''}'' \<in> set line then Some (rev (dropWhile (\<lambda>c. c \<noteq> CHR ''}'') (rev line)))
      else None)"

fun match_body :: "string \<Rightarrow> string option" where
  "match_body [] = None"
| "match_body (c # cs) =
     (if starts_with ''body: {'' (c # cs) then
        (case to_last_brace (drop 7 (c # cs)) of
           Some t \<Rightarrow> Some (CHR ''{'' # t)
         | None \<Rightarrow> match_body cs)
      else match_body cs)"

section \<open>SecretVaultWrapper\<close>

record node =
  url :: string
  did :: string

text \<open>The node descriptor as the JavaScript object found in the results.\<close>

definition node_val :: "node \<Rightarrow> jsval" where
  "node_val n = JObj [(''url'', JStr (url n)), (''did'', JStr (did n))]"

text \<open>
  What the wrapper reaches outside the sources: the signing of a node token
  (\<^verbatim>\<open>generateNodeToken\<close>, which calls \<^verbatim>\<open>did-jwt\<close> and the clock), \<^verbatim>\<open>fetch\<close>,
  \<^verbatim>\<open>JSON.parse\<close>, \<^verbatim>\<open>Number.parseInt\<close> on a string of decimal digits (the
  double nearest to the number the digits denote, \<^verbatim>\<open>Infinity\<close> past the largest
  double) and \<^verbatim>\<open>uuidv4\<close> (\<open>uuidv4 k\<close> is the \<open>k\<close>-th identifier the generator
  hands out). A request is what \<^verbatim>\<open>fetch\<close> is given: the address, the method, the
  bearer token and the body (the payload that \<^verbatim>\<open>JSON.stringify\<close> serialises,
  none for a GET). A response is its status, its content-type header and its body:
  reading the body (\<^verbatim>\<open>response.text()\<close>, and the first half of
  \<^verbatim>\<open>response.json()\<close>) gives its text or rejects, as it does when the connection
  breaks before the body has arrived.
\<close>

record request =
  req_url :: string
  req_method :: string
  req_token :: string
  req_body :: "jsval option"

record response =
  status :: nat
  content_type :: "string option"
  body_text :: "error + string"

record env =
  generateNodeToken :: "string \<Rightarrow> error + string"
  fetch :: "request \<Rightarrow> error + response"
  JSON_parse :: "string \<Rightarrow> error + jsval"
  Number_parseInt :: "string \<Rightarrow> jsval"
  uuidv4 :: "nat \<Rightarrow> string"

record SecretVaultWrapper =
  nodes :: "node list"
  schemaId :: jsval
  nilqlWrapper :: "NilQLWrapper option"

text \<open>\<^verbatim>\<open>response.ok\<close>\<close>

definition ok :: "response \<Rightarrow> bool" where
  "ok r = (200 \<le> status r \<and> status r \<le> 299)"

text \<open>
  The own enumerable properties a spread \<^verbatim>\<open>...v\<close> copies: those of an object, the
  indexed elements of an array or of a string, none of any other value.
\<close>

fun spread_props :: "jsval \<Rightarrow> (string \<times> jsval) list" where
  "spread_props (JObj es) = es"
| "spread_props (JArr xs) = map (\<lambda>i. (show_digits i, xs ! i)) [0..<length xs]"
| "spread_props (JStr s) = map (\<lambda>i. (show_digits i, JStr [s ! i])) [0..<length s]"
| "spread_props v = []"

text \<open>An object literal: the properties are assigned from left to right.\<close>

definition object_literal :: "(string \<times> jsval) list \<Rightarrow> jsval" where
  "object_literal kvs = JObj (foldl (\<lambda>acc (k, v). set_prop k v acc) [] kvs)"

definition makeRequest_try ::
  "env \<Rightarrow> string \<Rightarrow> string \<Rightarrow> string \<Rightarrow> jsval \<Rightarrow> string \<Rightarrow> error + jsval" where
  "makeRequest_try E nodeUrl endpoint token payload method =
     (case fetch E \<lparr> req_url = nodeUrl @ ''/api/v1/'' @ endpoint, req_method = method,
                     req_token = token,
                     req_body = (if method = ''GET'' then None else Some payload) \<rparr> of
        Inl e \<Rightarrow> Inl e
      | Inr response \<Rightarrow>
          if \<not> ok response then
            (case body_text response of
               Inl e \<Rightarrow> Inl e
             | Inr text \<Rightarrow>
                 Inl (Error (''HTTP error! status: '' @ show_digits (status response) @
                             '', body: '' @ text)))
          else if (case content_type response of
                     None \<Rightarrow> False
                   | Some contentType \<Rightarrow> str_includes contentType ''application/json'') then
            (case body_text response of
               Inl e \<Rightarrow> Inl e
             | Inr text \<Rightarrow>
                 (case JSON_parse E text of
                    Inl e \<Rightarrow> Inl e
                  | Inr data \<Rightarrow>
                      Inr (object_literal
                             ((''status'', JNum (int (status response))) # spread_props data))))
          else Inr (JObj [(''status'', JNum (int (status response)))]))"

definition makeRequest_catch :: "env \<Rightarrow> error \<Rightarrow> error + jsval" where
  "makeRequest_catch E error =
     (let statusMatch = match_status (message error);
          bodyMatch = match_body (message error);
          status_field = (case statusMatch of Some ds \<Rightarrow> Number_parseInt E ds | None \<Rightarrow> JNull)
      in case bodyMatch of
           Some b \<Rightarrow>
             (case JSON_parse E b of
                Inl e \<Rightarrow> Inl e
              | Inr parsed \<Rightarrow> Inr (JObj [(''status'', status_field), (''error'', parsed)]))
         | None \<Rightarrow>
             Inr (JObj [(''status'', status_field),
                        (''error'', JObj [(''errors'', JArr [JErr error])])]))"

definition makeRequest ::
  "env \<Rightarrow> string \<Rightarrow> string \<Rightarrow> string \<Rightarrow> jsval \<Rightarrow> string \<Rightarrow> error + jsval" where
  "makeRequest E nodeUrl endpoint token payload method =
     (case makeRequest_try E nodeUrl endpoint token payload method of
        Inr v \<Rightarrow> Inr v
      | Inl error \<Rightarrow> makeRequest_catch E error)"


text \<open>
  One leg of a fan-out is an async function whose whole body is a \<^verbatim>\<open>try\<close>: it
  fulfils with \<^verbatim>\<open>{ result, node }\<close> or rejects with \<^verbatim>\<open>{ error, node }\<close>.
  \<^verbatim>\<open>Promise.allSettled\<close> keeps the legs in the order of \<^verbatim>\<open>this.nodes\<close>.
\<close>

datatype settled = Fulfilled jsval node | Rejected error node

text \<open>\<^verbatim>\<open>{ ...result, node }\<close> and \<^verbatim>\<open>{ error, node }\<close>\<close>

fun outcome :: "settled \<Rightarrow> jsval" where
  "outcome (Fulfilled result n) = object_literal (spread_props result @ [(''node'', node_val n)])"
| "outcome (Rejected error n) = JObj [(''error'', JErr error), (''node'', node_val n)]"

text \<open>\<^verbatim>\<open>{ ...result, node, schemaId: this.schemaId }\<close>, the mapping of writeToNodes\<close>

fun write_outcome :: "SecretVaultWrapper \<Rightarrow> settled \<Rightarrow> jsval" where
  "write_outcome V (Fulfilled result n) =
     object_literal (spread_props result @ [(''node'', node_val n), (''schemaId'', schemaId V)])"
| "write_outcome V (Rejected error n) = JObj [(''error'', JErr error), (''node'', node_val n)]"

text \<open>An array read \<^verbatim>\<open>xs[i]\<close>: \<^verbatim>\<open>undefined\<close> past the end.\<close>

definition js_nth :: "jsval list \<Rightarrow> nat \<Rightarrow> jsval" where
  "js_nth xs i = (if i < length xs then xs ! i else JUndefined)"

definition flushDataFromNode :: "env \<Rightarrow> SecretVaultWrapper \<Rightarrow> node \<Rightarrow> settled" where
  "flushDataFromNode E V n =
     (case generateNodeToken E (did n) of
        Inl error \<Rightarrow> Rejected error n
      | Inr jwt \<Rightarrow>
          (case makeRequest E (url n) ''data/flush'' jwt (JObj [(''schema'', schemaId V)]) ''POST'' of
             Inl error \<Rightarrow> Rejected error n
           | Inr result \<Rightarrow> Fulfilled result n))"

definition flushData :: "env \<Rightarrow> SecretVaultWrapper \<Rightarrow> jsval list" where
  "flushData E V = map outcome (map (flushDataFromNode E V) (nodes V))"

fun allotData :: "nilql \<Rightarrow> SecretVaultWrapper \<Rightarrow> jsval list \<Rightarrow> error + jsval list list" where
  "allotData L V [] = Inr []"
| "allotData L V (item # rest) =
     (case nilqlWrapper V of
        None \<Rightarrow> Inl (TypeError ''Cannot read properties of null'')
      | Some w \<Rightarrow>
          (case prepareAndAllot L w item of
             Inl e \<Rightarrow> Inl e
           | Inr encryptedItem \<Rightarrow>
               (case allotData L V rest of
                  Inl e \<Rightarrow> Inl e
                | Inr encryptedRecords \<Rightarrow> Inr (encryptedItem # encryptedRecords))))"

text \<open>
  The first step of writeToNodes, \<^verbatim>\<open>data.map\<close>: a record whose \<^verbatim>\<open>_id\<close> is falsy is
  replaced by \<^verbatim>\<open>{ ...record, _id: uuidv4() }\<close>. The number of identifiers handed
  out so far is threaded through.
\<close>

fun idData :: "env \<Rightarrow> nat \<Rightarrow> jsval list \<Rightarrow> error + jsval list \<times> nat" where
  "idData E k [] = Inr ([], k)"
| "idData E k (record # rest) =
     (case get_prop record ''_id'' of
        Inl e \<Rightarrow> Inl e
      | Inr i \<Rightarrow>
          if \<not> truthy i then
            (case idData E (Suc k) rest of
               Inl e \<Rightarrow> Inl e
             | Inr (rs, k') \<Rightarrow>
                 Inr (object_literal (spread_props record @ [(''_id'', JStr (uuidv4 E k))]) # rs, k'))
          else
            (case idData E k rest of
               Inl e \<Rightarrow> Inl e
             | Inr (rs, k') \<Rightarrow> Inr (record # rs, k')))"

text \<open>
  The arrow function both writeDataToNode and updateDataOnNode map over
  \<^verbatim>\<open>transformedData\<close>.
\<close>

definition nodeShare :: "SecretVaultWrapper \<Rightarrow> nat \<Rightarrow> jsval list \<Rightarrow> jsval" where
  "nodeShare V index encryptedShares =
     (if length encryptedShares \<noteq> length (nodes V) then js_nth encryptedShares 0
      else js_nth encryptedShares index)"

definition writeDataToNode ::
  "env \<Rightarrow> SecretVaultWrapper \<Rightarrow> jsval list list \<Rightarrow> node \<Rightarrow> nat \<Rightarrow> settled" where
  "writeDataToNode E V transformedData n index =
     (case generateNodeToken E (did n) of
        Inl error \<Rightarrow> Rejected error n
      | Inr jwt \<Rightarrow>
          (let nodeData = map (nodeShare V index) transformedData;
               payload = JObj [(''schema'', schemaId V), (''data'', JArr nodeData)]
           in case makeRequest E (url n) ''data/create'' jwt payload ''POST'' of
                Inl error \<Rightarrow> Rejected error n
              | Inr result \<Rightarrow> Fulfilled result n))"

definition writeToNodes ::
  "env \<Rightarrow> nilql \<Rightarrow> SecretVaultWrapper \<Rightarrow> nat \<Rightarrow> jsval list \<Rightarrow> error + jsval list \<times> nat" where
  "writeToNodes E L V k data =
     (case idData E k data of
        Inl e \<Rightarrow> Inl e
      | Inr (ids, k') \<Rightarrow>
          (case allotData L V ids of
             Inl e \<Rightarrow> Inl e
           | Inr transformedData \<Rightarrow>
               Inr (map (write_outcome V)
                      (map (\<lambda>(n, index). writeDataToNode E V transformedData n index)
                         (zip (nodes V) [0..<length (nodes V)])),
                    k')))"

text \<open>A parameter \<^verbatim>\<open>filter = {}\<close> takes its default when it is \<^verbatim>\<open>undefined\<close>.\<close>

definition default_filter :: "jsval \<Rightarrow> jsval" where
  "default_filter f = (if f = JUndefined then JObj [] else f)"

definition updateDataOnNode ::
  "env \<Rightarrow> SecretVaultWrapper \<Rightarrow> jsval list list \<Rightarrow> jsval \<Rightarrow> node \<Rightarrow> nat \<Rightarrow> settled" where
  "updateDataOnNode E V transformedData filt n index =
     (case generateNodeToken E (did n) of
        Inl error \<Rightarrow> Rejected error n
      | Inr jwt \<Rightarrow>
          (let nodeData = js_nth (map (nodeShare V index) transformedData) 0;
               payload = JObj [(''schema'', schemaId V),
                               (''update'', JObj [(''$set'', nodeData)]),
                               (''filter'', filt)]
           in case makeRequest E (url n) ''data/update'' jwt payload ''POST'' of
                Inl error \<Rightarrow> Rejected error n
              | Inr result \<Rightarrow> Fulfilled result n))"

definition updateDataToNodes ::
  "env \<Rightarrow> nilql \<Rightarrow> SecretVaultWrapper \<Rightarrow> jsval \<Rightarrow> jsval \<Rightarrow> error + jsval list" where
  "updateDataToNodes E L V recordUpdate filt =
     (case allotData L V [recordUpdate] of
        Inl e \<Rightarrow> Inl e
      | Inr transformedData \<Rightarrow>
          Inr (map outcome
                 (map (\<lambda>(n, index).
                         updateDataOnNode E V transformedData (default_filter filt) n index)
                    (zip (nodes V) [0..<length (nodes V)]))))"

definition deleteDataFromNode :: "env \<Rightarrow> SecretVaultWrapper \<Rightarrow> jsval \<Rightarrow> node \<Rightarrow> settled" where
  "deleteDataFromNode E V filt n =
     (case generateNodeToken E (did n) of
        Inl error \<Rightarrow> Rejected error n
      | Inr jwt \<Rightarrow>
          (case makeRequest E (url n) ''data/delete'' jwt
                  (JObj [(''schema'', schemaId V), (''filter'', filt)]) ''POST'' of
             Inl error \<Rightarrow> Rejected error n
           | Inr result \<Rightarrow> Fulfilled result n))"

definition deleteDataFromNodes :: "env \<Rightarrow> SecretVaultWrapper \<Rightarrow> jsval \<Rightarrow> jsval list" where
  "deleteDataFromNodes E V filt =
     map outcome (map (deleteDataFromNode E V (default_filter filt)) (nodes V))"

definition readDataFromNode :: "env \<Rightarrow> SecretVaultWrapper \<Rightarrow> jsval \<Rightarrow> node \<Rightarrow> settled" where
  "readDataFromNode E V filt n =
     (case generateNodeToken E (did n) of
        Inl error \<Rightarrow> Rejected error n
      | Inr jwt \<Rightarrow>
          (case makeRequest E (url n) ''data/read'' jwt
                  (JObj [(''schema'', schemaId V), (''filter'', filt)]) ''POST'' of
             Inl error \<Rightarrow> Rejected error n
           | Inr result \<Rightarrow> Fulfilled result n))"

subsection \<open>Read reassembly\<close>

text \<open>
  \<^verbatim>\<open>a === b\<close> between the \<^verbatim>\<open>_id\<close> of two different records: primitives are
  compared by value; two objects are the same only if they are one object, which the
  \<^verbatim>\<open>_id\<close> of two different records never are.
\<close>

fun strict_eq :: "jsval \<Rightarrow> jsval \<Rightarrow> bool" where
  "strict_eq JUndefined JUndefined = True"
| "strict_eq JNull JNull = True"
| "strict_eq (JBool a) (JBool b) = (a = b)"
| "strict_eq (JNum a) (JNum b) = (a = b)"
| "strict_eq (JStr a) (JStr b) = (a = b)"
| "strict_eq a b = False"

record share_group =
  shares :: "jsval list"
  recordIndex :: jsval

text \<open>
  The body of the inner loop, for a record whose \<^verbatim>\<open>_id\<close> is \<open>rid\<close>:
  \<^verbatim>\<open>acc.find\<close> returns the first group one of whose shares has that \<^verbatim>\<open>_id\<close>, and the
  record is pushed onto its shares; with no such group a new one is pushed onto \<open>acc\<close>.
\<close>

fun add_record :: "jsval \<Rightarrow> jsval \<Rightarrow> share_group list \<Rightarrow> share_group list" where
  "add_record rid record [] = [\<lparr> shares = [record], recordIndex = rid \<rparr>]"
| "add_record rid record (g # acc) =
     (if list_ex (\<lambda>share. strict_eq (prop_of share ''_id'') rid) (shares g)
      then g\<lparr> shares := shares g @ [record] \<rparr> # acc
      else g # add_record rid record acc)"

text \<open>
  \<^verbatim>\<open>for (const record of nodeResult.data)\<close>. Reading \<^verbatim>\<open>record._id\<close> throws on
  \<^verbatim>\<open>null\<close>.
\<close>

fun group_records :: "share_group list \<Rightarrow> jsval list \<Rightarrow> error + share_group list" where
  "group_records acc [] = Inr acc"
| "group_records acc (record # rest) =
     (case get_prop record ''_id'' of
        Inl e \<Rightarrow> Inl e
      | Inr rid \<Rightarrow> group_records (add_record rid record acc) rest)"

text \<open>What a \<^verbatim>\<open>for ... of\<close> loop iterates over: an array or a string, nothing else.\<close>

fun iterate :: "jsval \<Rightarrow> error + jsval list" where
  "iterate (JArr xs) = Inr xs"
| "iterate (JStr s) = Inr (map (\<lambda>c. JStr [c]) s)"
| "iterate v = Inl (TypeError ''nodeResult.data is not iterable'')"

text \<open>\<^verbatim>\<open>results.reduce((acc, nodeResult) => ..., [])\<close>\<close>

fun recordGroups :: "share_group list \<Rightarrow> jsval list \<Rightarrow> error + share_group list" where
  "recordGroups acc [] = Inr acc"
| "recordGroups acc (nodeResult # rest) =
     (if truthy (prop_of nodeResult ''data'') then
        (case iterate (prop_of nodeResult ''data'') of
           Inl e \<Rightarrow> Inl e
         | Inr records \<Rightarrow>
             (case group_records acc records of
                Inl e \<Rightarrow> Inl e
              | Inr acc' \<Rightarrow> recordGroups acc' rest))
      else recordGroups acc rest)"

text \<open>
  \<^verbatim>\<open>Promise.all(recordGroups.map(...))\<close>: one call of unify for each group; the result
  is the list of the unified records, or the error of a call that threw (here the first
  in the order of the groups).
\<close>

fun recombine :: "nilql \<Rightarrow> SecretVaultWrapper \<Rightarrow> share_group list \<Rightarrow> error + jsval list" where
  "recombine L V [] = Inr []"
| "recombine L V (g # gs) =
     (case nilqlWrapper V of
        None \<Rightarrow> Inl (TypeError ''Cannot read properties of null'')
      | Some w \<Rightarrow>
          (case unify L w (shares g) of
             Inl e \<Rightarrow> Inl e
           | Inr recombined \<Rightarrow>
               (case recombine L V gs of
                  Inl e \<Rightarrow> Inl e
                | Inr rs \<Rightarrow> Inr (recombined # rs))))"

definition read_results :: "env \<Rightarrow> SecretVaultWrapper \<Rightarrow> jsval \<Rightarrow> jsval list" where
  "read_results E V filt =
     map outcome (map (readDataFromNode E V (default_filter filt)) (nodes V))"

definition readFromNodes ::
  "env \<Rightarrow> nilql \<Rightarrow> SecretVaultWrapper \<Rightarrow> jsval \<Rightarrow> error + jsval list" where
  "readFromNodes E L V filt =
     (case recordGroups [] (read_results E V filt) of
        Inl e \<Rightarrow> Inl e
      | Inr groups \<Rightarrow> recombine L V groups)"


section \<open>Paths into a value\<close>





section \<open>A sample primitive and a sample environment\<close>

text \<open>
  The theorems below hold for every primitive and every environment. To run the model on
  concrete inputs, here is a small primitive: two-party additive sharing of an integer
  under a mask, the key. \<open>sample_allot\<close> gives each of the two variants its share of
  every marked top-level field, and \<open>sample_unify\<close> adds the shares up again.
\<close>

fun sample_encrypt :: "jsval \<Rightarrow> jsval \<Rightarrow> error + jsval" where
  "sample_encrypt (JNum m) (JNum v) = Inr (JArr [JNum (v - m), JNum m])"
| "sample_encrypt k v = Inl (TypeError ''cannot encrypt'')"

fun sample_decrypt :: "jsval \<Rightarrow> jsval \<Rightarrow> error + jsval" where
  "sample_decrypt k (JArr [JNum a, JNum b]) = Inr (JNum (a + b))"
| "sample_decrypt k v = Inl (TypeError ''cannot decrypt'')"

definition two_shares :: "jsval \<Rightarrow> (jsval \<times> jsval) option" where
  "two_shares v =
     (case prop_of v ''%allot'' of
        JArr xs \<Rightarrow> (if length xs = 2 then Some (xs ! 0, xs ! 1) else None)
      | _ \<Rightarrow> None)"

definition sample_share :: "nat \<Rightarrow> string \<times> jsval \<Rightarrow> string \<times> jsval" where
  "sample_share i kv =
     (case two_shares (snd kv) of
        Some (x, y) \<Rightarrow> (fst kv, JObj [(''%share'', if i = 0 then x else y)])
      | None \<Rightarrow> kv)"

definition sample_allot :: "jsval \<Rightarrow> error + jsval list" where
  "sample_allot doc =
     (if list_ex (\<lambda>kv. two_shares (snd kv) \<noteq> None) (spread_props doc)
      then Inr [JObj (map (sample_share 0) (spread_props doc)),
                JObj (map (sample_share 1) (spread_props doc))]
      else Inr [doc])"

definition sample_merge :: "string \<times> jsval \<Rightarrow> string \<times> jsval \<Rightarrow> string \<times> jsval" where
  "sample_merge kv kv' =
     (case (prop_of (snd kv) ''%share'', prop_of (snd kv') ''%share'') of
        (JNum a, JNum b) \<Rightarrow> (fst kv, JNum (a + b))
      | _ \<Rightarrow> kv)"

fun sample_unify :: "jsval \<Rightarrow> jsval list \<Rightarrow> error + jsval" where
  "sample_unify k [d] = Inr d"
| "sample_unify k [d, d'] = Inr (JObj (map2 sample_merge (spread_props d) (spread_props d')))"
| "sample_unify k ds = Inl (Error ''cannot unify'')"

definition sample_nilql :: nilql where
  "sample_nilql =
     \<lparr> SecretKey_generate = (\<lambda>cl op seed. Inr (JNum 7)),
       ClusterKey_generate = (\<lambda>cl op. Inr (JNum 11)),
       nilql_encrypt = sample_encrypt,
       nilql_decrypt = sample_decrypt,
       nilql_allot = sample_allot,
       nilql_unify = sample_unify \<rparr>"


text \<open>
  A sample environment. Node \<open>a\<close> and node \<open>e\<close> answer every request with status 200
  and a JSON body, and a read with the share each of them holds of one record; node \<open>b\<close>
  answers with status 500 and a body that is no JSON; node \<open>c\<close> answers with status 401
  and a JSON body; every other address is unreachable. No token can be signed for node
  \<open>d\<close>. \<open>sample_JSON_parse\<close> is \<^verbatim>\<open>JSON.parse\<close> on the texts of these bodies, and
  \<open>sample_parseInt\<close> is \<^verbatim>\<open>Number.parseInt\<close> on the digits of an HTTP status (on
  at most fifteen digits the double is the number itself).
\<close>

definition quoted :: "string \<Rightarrow> string" where
  "quoted s = CHR 0x22 # s @ [CHR 0x22]"

definition share_text :: "string \<Rightarrow> string" where
  "share_text n =
     ''{'' @ quoted ''data'' @ '':[{'' @ quoted ''_id'' @ '':'' @ quoted ''r1'' @ '','' @
     quoted ''n'' @ '':{'' @ quoted ''%share'' @ '':'' @ n @ ''}}]}''"

definition denied_text :: string where
  "denied_text = ''{'' @ quoted ''errors'' @ '':['' @ quoted ''denied'' @ '']}''"

definition share_record :: "int \<Rightarrow> jsval" where
  "share_record n = JObj [(''_id'', JStr ''r1''), (''n'', JObj [(''%share'', JNum n)])]"

definition sample_JSON_parse :: "string \<Rightarrow> error + jsval" where
  "sample_JSON_parse s =
     (if s = ''{}'' then Inr (JObj [])
      else if s = denied_text then Inr (JObj [(''errors'', JArr [JStr ''denied''])])
      else if s = share_text ''5'' then Inr (JObj [(''data'', JArr [share_record 5])])
      else if s = share_text ''7'' then Inr (JObj [(''data'', JArr [share_record 7])])
      else Inl (SyntaxError ''Unexpected token in JSON''))"

definition sample_parseInt :: "string \<Rightarrow> jsval" where
  "sample_parseInt ds = JNum (int (decimal ds))"

definition sample_fetch :: "request \<Rightarrow> error + response" where
  "sample_fetch r =
     (if req_url r = ''https://a.example/api/v1/data/read'' then
        Inr \<lparr> status = 200, content_type = Some ''application/json; charset=utf-8'',
              body_text = Inr (share_text ''5'') \<rparr>
      else if req_url r = ''https://e.example/api/v1/data/read'' then
        Inr \<lparr> status = 200, content_type = Some ''application/json; charset=utf-8'',
              body_text = Inr (share_text ''7'') \<rparr>
      else if starts_with ''https://a.example/'' (req_url r)
           \<or> starts_with ''https://e.example/'' (req_url r) then
        Inr \<lparr> status = 200, content_type = Some ''application/json; charset=utf-8'',
              body_text = Inr ''{}'' \<rparr>
      else if starts_with ''https://b.example/'' (req_url r) then
        Inr \<lparr> status = 500, content_type = Some ''text/plain'',
              body_text = Inr ''{a}'' \<rparr>
      else if starts_with ''https://c.example/'' (req_url r) then
        Inr \<lparr> status = 401, content_type = Some ''application/json'',
              body_text = Inr denied_text \<rparr>
      else Inl (TypeError ''fetch failed''))"

definition sample_env :: env where
  "sample_env =
     \<lparr> generateNodeToken =
         (\<lambda>d. if d = ''did:nil:d'' then Inl (Error ''invalid private key'')
              else Inr (''jwt-for-'' @ d)),
       fetch = sample_fetch,
       JSON_parse = sample_JSON_parse,
       Number_parseInt = sample_parseInt,
       uuidv4 = (\<lambda>k. ''00000000-0000-4000-8000-00000000000'' @ show_digits k) \<rparr>"

definition node_a :: node where
  "node_a = \<lparr> url = ''https://a.example'', did = ''did:nil:a'' \<rparr>"

definition node_b :: node where
  "node_b = \<lparr> url = ''https://b.example'', did = ''did:nil:b'' \<rparr>"

definition node_c :: node where
  "node_c = \<lparr> url = ''https://c.example'', did = ''did:nil:c'' \<rparr>"

definition node_d :: node where
  "node_d = \<lparr> url = ''https://d.example'', did = ''did:nil:d'' \<rparr>"

definition node_e :: node where
  "node_e = \<lparr> url = ''https://e.example'', did = ''did:nil:e'' \<rparr>"

text \<open>A vault over the given nodes whose wrapper holds the key 7.\<close>

definition sample_vault :: "node list \<Rightarrow> SecretVaultWrapper" where
  "sample_vault ns =
     \<lparr> nodes = ns, schemaId = JStr ''schema-1'',
       nilqlWrapper = Some (new_NilQLWrapper (JObj [(''nodes'', JArr (map node_val ns))]) None
                              (JNum 7) JNull KeyType_SECRET) \<rparr>"

text \<open>
  A record lacks an identifier, for writeToNodes, when \<^verbatim>\<open>!record._id\<close> holds: the
  property is missing or its value is falsy.
\<close>

definition lacks_id :: "jsval \<Rightarrow> bool" where
  "lacks_id rcd = (case get_prop rcd ''_id'' of Inl e \<Rightarrow> False | Inr i \<Rightarrow> \<not> truthy i)"

subsection \<open>Read reassembly, in the words of the specification\<close>

text \<open>
  The records one outcome contributes to the stream: the elements of its
  \<^verbatim>\<open>data\<close>, none when it has no \<^verbatim>\<open>data\<close>.
\<close>

definition data_records :: "jsval \<Rightarrow> jsval list" where
  "data_records nodeResult =
     (if truthy (prop_of nodeResult ''data'') then
        (case iterate (prop_of nodeResult ''data'') of Inl e \<Rightarrow> [] | Inr rs \<Rightarrow> rs)
      else [])"

text \<open>
  A record a node returns is an object whose \<^verbatim>\<open>_id\<close>, if it has one, is a primitive
  value; an outcome is well formed when its \<^verbatim>\<open>data\<close>, if it has any, is a list of
  such records.
\<close>

definition record_ok :: "jsval \<Rightarrow> bool" where
  "record_ok r =
     (r \<noteq> JNull \<and> r \<noteq> JUndefined \<and> strict_eq (prop_of r ''_id'') (prop_of r ''_id''))"

definition well_formed :: "jsval \<Rightarrow> bool" where
  "well_formed nodeResult =
     (if truthy (prop_of nodeResult ''data'') then
        (case iterate (prop_of nodeResult ''data'') of
           Inl e \<Rightarrow> False
         | Inr rs \<Rightarrow> list_all record_ok rs)
      else True)"

text \<open>
  Grouping by \<^verbatim>\<open>_id\<close>: all records sharing one \<^verbatim>\<open>_id\<close> form one share group, its
  shares in the order the records arrived, the groups in the order they were discovered.
\<close>

definition first_occurrences :: "'a list \<Rightarrow> 'a list" where
  "first_occurrences xs = rev (remdups (rev xs))"

definition group_of :: "jsval list \<Rightarrow> jsval \<Rightarrow> share_group" where
  "group_of rs i = \<lparr> shares = filter (\<lambda>r. prop_of r ''_id'' = i) rs, recordIndex = i \<rparr>"

definition group_by_id :: "jsval list \<Rightarrow> share_group list" where
  "group_by_id rs = map (group_of rs) (first_occurrences (map (\<lambda>r. prop_of r ''_id'') rs))"


section \<open>writeToNodes on a store of objects\<close>

text \<open>
  Whether writeToNodes changes the objects of its caller depends on which object each
  assignment of the code writes to, so here the objects live in a store. A value is a
  primitive or a reference; the store is the list of the objects allocated so far, a
  reference being a position in it, and a new object goes at the end.
\<close>

datatype hval = HUndefined | HNull | HBool bool | HNum int | HStr string | HRef nat

datatype hobj = HErr error | HArr "hval list" | HObj "(string \<times> hval) list"

type_synonym heap = "hobj list"

fun truthyH :: "hval \<Rightarrow> bool" where
  "truthyH HUndefined = False"
| "truthyH HNull = False"
| "truthyH (HBool b) = b"
| "truthyH (HNum n) = (n \<noteq> 0)"
| "truthyH (HStr s) = (s \<noteq> [])"
| "truthyH (HRef a) = True"

fun entriesH :: "hobj \<Rightarrow> (string \<times> hval) list" where
  "entriesH (HObj es) = es"
| "entriesH (HArr xs) = map (\<lambda>i. (show_digits i, xs ! i)) [0..<length xs]"
| "entriesH (HErr e) = []"

fun spread_propsH :: "heap \<Rightarrow> hval \<Rightarrow> (string \<times> hval) list" where
  "spread_propsH h (HRef a) = (if a < length h then entriesH (h ! a) else [])"
| "spread_propsH h (HStr s) = map (\<lambda>i. (show_digits i, HStr [s ! i])) [0..<length s]"
| "spread_propsH h v = []"

fun has_propH :: "heap \<Rightarrow> string \<Rightarrow> hval \<Rightarrow> bool" where
  "has_propH h k (HRef a) =
     (a < length h \<and> (case h ! a of HObj es \<Rightarrow> k \<in> set (map fst es) | _ \<Rightarrow> False))"
| "has_propH h k v = False"

fun prop_ofH :: "heap \<Rightarrow> hval \<Rightarrow> string \<Rightarrow> hval" where
  "prop_ofH h (HRef a) k =
     (if a < length h then
        (case h ! a of
           HObj es \<Rightarrow> (case map_of es k of Some x \<Rightarrow> x | None \<Rightarrow> HUndefined)
         | _ \<Rightarrow> HUndefined)
      else HUndefined)"
| "prop_ofH h v k = HUndefined"

fun get_propH :: "heap \<Rightarrow> hval \<Rightarrow> string \<Rightarrow> error + hval" where
  "get_propH h HUndefined k = Inl (TypeError ''Cannot read properties of undefined'')"
| "get_propH h HNull k = Inl (TypeError ''Cannot read properties of null'')"
| "get_propH h v k = Inr (prop_ofH h v k)"

text \<open>A value handed back by the primitive is built from new objects.\<close>

fun store :: "jsval \<Rightarrow> heap \<Rightarrow> hval \<times> heap"
  and store_elems :: "jsval list \<Rightarrow> heap \<Rightarrow> hval list \<times> heap"
  and store_entries :: "(string \<times> jsval) list \<Rightarrow> heap \<Rightarrow> (string \<times> hval) list \<times> heap"
where
  "store JUndefined h = (HUndefined, h)"
| "store JNull h = (HNull, h)"
| "store (JBool b) h = (HBool b, h)"
| "store (JNum n) h = (HNum n, h)"
| "store (JStr s) h = (HStr s, h)"
| "store (JErr e) h = (HRef (length h), h @ [HErr e])"
| "store (JArr xs) h = (case store_elems xs h of (vs, h') \<Rightarrow> (HRef (length h'), h' @ [HArr vs]))"
| "store (JObj es) h = (case store_entries es h of (fs, h') \<Rightarrow> (HRef (length h'), h' @ [HObj fs]))"
| "store_elems [] h = ([], h)"
| "store_elems (x # xs) h =
     (case store x h of (v, h') \<Rightarrow> (case store_elems xs h' of (vs, h'') \<Rightarrow> (v # vs, h'')))"
| "store_entries [] h = ([], h)"
| "store_entries ((k, x) # es) h =
     (case store x h of (v, h') \<Rightarrow> (case store_entries es h' of (fs, h'') \<Rightarrow> ((k, v) # fs, h'')))"

text \<open>
  \<^verbatim>\<open>encrypted[key] = v\<close>, a write to the object at \<open>e\<close>. The keys of an array
  come in the order of its indices, so on an array the write appends.
\<close>

definition assign :: "nat \<Rightarrow> string \<Rightarrow> hval \<Rightarrow> heap \<Rightarrow> heap" where
  "assign e k v h =
     h[e := (case h ! e of
               HObj es \<Rightarrow> HObj (set_prop k v es)
             | HArr xs \<Rightarrow> HArr (xs @ [v])
             | HErr err \<Rightarrow> HErr err)]"

text \<open>\<^verbatim>\<open>Array.isArray(obj) ? [] : {}\<close>\<close>

fun empty_like :: "heap \<Rightarrow> hval \<Rightarrow> hobj" where
  "empty_like h (HRef a) =
     (if a < length h then (case h ! a of HArr xs \<Rightarrow> HArr [] | _ \<Rightarrow> HObj []) else HObj [])"
| "empty_like h v = HObj []"

text \<open>
  \<^verbatim>\<open>encryptDeep\<close> on the store. The data may be cyclic, and then the walk does not
  return: the first argument bounds the depth of the recursion, and \<open>None\<close> says that
  the bound was reached. \<open>encryptEntriesH\<close> is the loop over the entries, writing to
  the object \<open>encrypted\<close>. The primitive reads the store and returns a value; that it
  changes no object it is given is the assumption made of it.
\<close>

fun encryptDeepH ::
    "nat \<Rightarrow> (heap \<Rightarrow> hval \<Rightarrow> error + jsval) \<Rightarrow> hval \<Rightarrow> heap \<Rightarrow> (error + hval) option \<times> heap"
  and encryptEntriesH ::
    "nat \<Rightarrow> (heap \<Rightarrow> hval \<Rightarrow> error + jsval) \<Rightarrow> nat \<Rightarrow> (string \<times> hval) list \<Rightarrow> heap
       \<Rightarrow> (error + unit) option \<times> heap"
where
  "encryptDeepH 0 enc obj h = (None, h)"
| "encryptDeepH (Suc n) enc obj h =
     (case obj of
        HRef a \<Rightarrow>
          (case encryptEntriesH n enc (length h) (spread_propsH h obj)
                  (h @ [empty_like h obj]) of
             (None, h') \<Rightarrow> (None, h')
           | (Some (Inl e), h') \<Rightarrow> (Some (Inl e), h')
           | (Some (Inr u), h') \<Rightarrow> (Some (Inr (HRef (length h))), h'))
      | _ \<Rightarrow> (Some (Inr obj), h))"
| "encryptEntriesH n enc encrypted [] h = (Some (Inr ()), h)"
| "encryptEntriesH n enc encrypted ((key, v) # rest) h =
     (case v of
        HRef b \<Rightarrow>
          (if has_propH h ''%allot'' v then
             (case enc h (prop_ofH h v ''%allot'') of
                Inl e \<Rightarrow> (Some (Inl e), h)
              | Inr c \<Rightarrow>
                  (case store c h of
                     (cv, h') \<Rightarrow>
                       encryptEntriesH n enc encrypted rest
                         (assign encrypted key (HRef (length h'))
                            (h' @ [HObj [(''%allot'', cv)]]))))
           else
             (case encryptDeepH n enc v h of
                (None, h') \<Rightarrow> (None, h')
              | (Some (Inl e), h') \<Rightarrow> (Some (Inl e), h')
              | (Some (Inr v'), h') \<Rightarrow>
                  encryptEntriesH n enc encrypted rest (assign encrypted key v' h')))
      | _ \<Rightarrow> encryptEntriesH n enc encrypted rest (assign encrypted key v h))"


record nilqlH =
  encryptH :: "jsval \<Rightarrow> heap \<Rightarrow> hval \<Rightarrow> error + jsval"
  allotH :: "heap \<Rightarrow> hval \<Rightarrow> error + jsval list"

definition prepareAndAllotH ::
  "nat \<Rightarrow> nilqlH \<Rightarrow> NilQLWrapper \<Rightarrow> hval \<Rightarrow> heap \<Rightarrow> (error + jsval list) option \<times> heap" where
  "prepareAndAllotH fuel P w item h =
     (if \<not> truthy (secretKey w) then (Some (Inl NotInitialized), h)
      else
        (case encryptDeepH fuel (encryptH P (secretKey w)) item h of
           (None, h') \<Rightarrow> (None, h')
         | (Some (Inl e), h') \<Rightarrow> (Some (Inl e), h')
         | (Some (Inr encryptedData), h') \<Rightarrow> (Some (allotH P h' encryptedData), h')))"

fun allotDataH ::
  "nat \<Rightarrow> nilqlH \<Rightarrow> SecretVaultWrapper \<Rightarrow> hval list \<Rightarrow> heap
     \<Rightarrow> (error + jsval list list) option \<times> heap" where
  "allotDataH fuel P V [] h = (Some (Inr []), h)"
| "allotDataH fuel P V (item # rest) h =
     (case nilqlWrapper V of
        None \<Rightarrow> (Some (Inl (TypeError ''Cannot read properties of null'')), h)
      | Some w \<Rightarrow>
          (case prepareAndAllotH fuel P w item h of
             (None, h') \<Rightarrow> (None, h')
           | (Some (Inl e), h') \<Rightarrow> (Some (Inl e), h')
           | (Some (Inr encryptedItem), h') \<Rightarrow>
               (case allotDataH fuel P V rest h' of
                  (None, h'') \<Rightarrow> (None, h'')
                | (Some (Inl e), h'') \<Rightarrow> (Some (Inl e), h'')
                | (Some (Inr encryptedRecords), h'') \<Rightarrow>
                    (Some (Inr (encryptedItem # encryptedRecords)), h''))))"

text \<open>
  \<^verbatim>\<open>data.map\<close> of writeToNodes on the store: \<^verbatim>\<open>{ ...record, _id: uuidv4() }\<close>
  is a new object holding the values of the record's properties (its nested objects are
  shared, not copied).
\<close>

fun idDataH :: "env \<Rightarrow> nat \<Rightarrow> hval list \<Rightarrow> heap \<Rightarrow> (error + hval list \<times> nat) \<times> heap" where
  "idDataH E k [] h = (Inr ([], k), h)"
| "idDataH E k (rcd # rest) h =
     (case get_propH h rcd ''_id'' of
        Inl e \<Rightarrow> (Inl e, h)
      | Inr i \<Rightarrow>
          if \<not> truthyH i then
            (case idDataH E (Suc k) rest
                    (h @ [HObj (foldl (\<lambda>acc (key, v). set_prop key v acc) []
                                  (spread_propsH h rcd @ [(''_id'', HStr (uuidv4 E k))]))]) of
               (Inl e, h') \<Rightarrow> (Inl e, h')
             | (Inr (rs, k'), h') \<Rightarrow> (Inr (HRef (length h) # rs, k'), h'))
          else
            (case idDataH E k rest h of
               (Inl e, h') \<Rightarrow> (Inl e, h')
             | (Inr (rs, k'), h') \<Rightarrow> (Inr (rcd # rs, k'), h')))"

text \<open>
  writeToNodes on the store. The fan-out reads the variants, which are values returned
  by the primitive, and is the fan-out of \<open>writeToNodes\<close> above.
\<close>

definition writeToNodesH ::
  "nat \<Rightarrow> env \<Rightarrow> nilqlH \<Rightarrow> SecretVaultWrapper \<Rightarrow> nat \<Rightarrow> hval \<Rightarrow> heap
     \<Rightarrow> (error + jsval list \<times> nat) option \<times> heap" where
  "writeToNodesH fuel E P V k data h =
     (case data of
        HRef a \<Rightarrow>
          (case (if a < length h then h ! a else HObj []) of
             HArr records \<Rightarrow>
               (case idDataH E k records h of
                  (Inl e, h') \<Rightarrow> (Some (Inl e), h')
                | (Inr (ids, k'), h') \<Rightarrow>
                    (case allotDataH fuel P V ids (h' @ [HArr ids]) of
                       (None, h'') \<Rightarrow> (None, h'')
                     | (Some (Inl e), h'') \<Rightarrow> (Some (Inl e), h'')
                     | (Some (Inr transformedData), h'') \<Rightarrow>
                         (Some (Inr (map (write_outcome V)
                                       (map (\<lambda>(n, index). writeDataToNode E V transformedData n index)
                                          (zip (nodes V) [0..<length (nodes V)])),
                                     k')),
                          h'')))
           | _ \<Rightarrow> (Some (Inl (TypeError ''data.map is not a function'')), h))
      | _ \<Rightarrow> (Some (Inl (TypeError ''data.map is not a function'')), h))"

text \<open>A value points into the store.\<close>

fun valid :: "heap \<Rightarrow> hval \<Rightarrow> bool" where
  "valid h (HRef a) = (a < length h)"
| "valid h v = True"

text \<open>The store \<open>h'\<close> holds every object of \<open>h\<close> unchanged, and maybe new ones.\<close>

definition extends :: "heap \<Rightarrow> heap \<Rightarrow> bool" where
  "extends h h' = (take (length h) h' = h \<and> length h \<le> length h')"

text \<open>
  The value reachable from a reference, read to a given depth; a sample primitive on the
  store, which is the sample primitive applied to the value read; and a sample store: the
  caller's array of two records, the first with an identifier and a marked field.
\<close>

fun deep :: "nat \<Rightarrow> heap \<Rightarrow> hval \<Rightarrow> jsval" where
  "deep n h HUndefined = JUndefined"
| "deep n h HNull = JNull"
| "deep n h (HBool b) = JBool b"
| "deep n h (HNum i) = JNum i"
| "deep n h (HStr s) = JStr s"
| "deep 0 h (HRef a) = JUndefined"
| "deep (Suc n) h (HRef a) =
     (if a < length h then
        (case h ! a of
           HErr e \<Rightarrow> JErr e
         | HArr xs \<Rightarrow> JArr (map (deep n h) xs)
         | HObj es \<Rightarrow> JObj (map (\<lambda>(k, v). (k, deep n h v)) es))
      else JUndefined)"

definition sample_nilqlH :: nilqlH where
  "sample_nilqlH =
     \<lparr> encryptH = (\<lambda>key h v. sample_encrypt key (deep 8 h v)),
       allotH = (\<lambda>h v. sample_allot (deep 8 h v)) \<rparr>"

definition sample_heap :: heap where
  "sample_heap =
     [HObj [(''%allot'', HNum 12)],
      HObj [(''_id'', HStr ''r1''), (''n'', HRef 0)],
      HObj [(''message'', HStr ''hi'')],
      HArr [HRef 1, HRef 2]]"

(* PROPERTIES *)

section \<open>Properties of NilQLWrapper\<close>

text \<open>
  C6, as amended. The guard of \<^verbatim>\<open>encrypt\<close>, \<^verbatim>\<open>decrypt\<close>, \<^verbatim>\<open>unify\<close> and
  \<^verbatim>\<open>prepareAndAllot\<close> is \<^verbatim>\<open>!this.secretKey\<close>: on every wrapper whose secret key
  is unset (falsy), as it is on one constructed without a key until \<^verbatim>\<open>init\<close> has
  succeeded, each of the four fails with the NotInitialized error.
\<close>

theorem unset_key_NotInitialized:
  assumes "\<not> truthy (secretKey w)"
  shows "encrypt L w d = Inl NotInitialized \<and> decrypt L w d = Inl NotInitialized \<and>
         unify L w ss = Inl NotInitialized \<and> prepareAndAllot L w d = Inl NotInitialized"
  using assms by (simp add: encrypt_def decrypt_def unify_def prepareAndAllot_def)

theorem unset_key_NotInitialized_witness:
  "\<not> truthy (secretKey (new_NilQLWrapper JNull None JUndefined JUndefined JUndefined)) \<and>
   encrypt sample_nilql (new_NilQLWrapper JNull None JUndefined JUndefined JUndefined) (JNum 12)
     = Inl NotInitialized \<and>
   decrypt sample_nilql (new_NilQLWrapper JNull None JUndefined JUndefined JUndefined) (JNum 12)
     = Inl NotInitialized \<and>
   unify sample_nilql (new_NilQLWrapper JNull None JUndefined JUndefined JUndefined) [JNum 12]
     = Inl NotInitialized \<and>
   prepareAndAllot sample_nilql (new_NilQLWrapper JNull None JUndefined JUndefined JUndefined)
     (JNum 12) = Inl NotInitialized"
  using unset_key_NotInitialized
    [of "new_NilQLWrapper JNull None JUndefined JUndefined JUndefined" sample_nilql "JNum 12"
        "[JNum 12]"]
  by (simp add: new_NilQLWrapper_def)

text \<open>
  C6 as stated fails: a wrapper constructed with a secret key of the caller's, on which
  \<^verbatim>\<open>init\<close> was never called, encrypts.
\<close>

theorem encrypt_without_init_counterexample:
  "encrypt sample_nilql (new_NilQLWrapper JNull None (JNum 7) JUndefined JUndefined) (JNum 12)
     = Inr (JArr [JNum 5, JNum 7])"
  by (simp add: encrypt_def new_NilQLWrapper_def sample_nilql_def)

text \<open>
  C7, as amended. \<^verbatim>\<open>init\<close> looks at the key type only when it has no key: on a wrapper
  with no secret key and no seed whose key type is neither \<^verbatim>\<open>secret\<close> nor
  \<^verbatim>\<open>cluster\<close> it throws the UnsupportedKeyType error and leaves the wrapper as it was.
\<close>

theorem init_unsupported_keyType:
  assumes "secretKey w = JNull" and "\<not> truthy (secretKeySeed w)"
    and "keyType w \<noteq> KeyType_SECRET" and "keyType w \<noteq> KeyType_CLUSTER"
  shows "init L w = (Inl UnsupportedKeyType, w)"
  using assms by (simp add: init_def init_seed_def init_keyType_def)

theorem init_unsupported_keyType_witness:
  "secretKey (new_NilQLWrapper JNull None JNull JNull (JStr ''bogus'')) = JNull \<and>
   \<not> truthy (secretKeySeed (new_NilQLWrapper JNull None JNull JNull (JStr ''bogus''))) \<and>
   keyType (new_NilQLWrapper JNull None JNull JNull (JStr ''bogus'')) \<noteq> KeyType_SECRET \<and>
   keyType (new_NilQLWrapper JNull None JNull JNull (JStr ''bogus'')) \<noteq> KeyType_CLUSTER \<and>
   init sample_nilql (new_NilQLWrapper JNull None JNull JNull (JStr ''bogus''))
     = (Inl UnsupportedKeyType, new_NilQLWrapper JNull None JNull JNull (JStr ''bogus''))"
  using init_unsupported_keyType
    [of "new_NilQLWrapper JNull None JNull JNull (JStr ''bogus'')" sample_nilql]
  by (simp add: new_NilQLWrapper_def KeyType_SECRET_def KeyType_CLUSTER_def)

text \<open>
  C7 as stated fails: with a secret key supplied, \<^verbatim>\<open>init\<close> returns normally whatever
  the key type.
\<close>

theorem init_ignores_keyType_counterexample:
  "init sample_nilql (new_NilQLWrapper JNull None (JNum 7) JNull (JStr ''bogus''))
     = (Inr (), new_NilQLWrapper JNull None (JNum 7) JNull (JStr ''bogus''))"
  by (simp add: init_def init_seed_def init_keyType_def new_NilQLWrapper_def)

subsection \<open>The walk of prepareAndAllot\<close>









text \<open>The walk itself throws nothing: it returns whenever the split of every value does.\<close>

lemma encryptDeep_total:
  "(\<forall>x. \<exists>c. enc x = Inr c) \<Longrightarrow> \<exists>d'. encryptDeep enc d = Inr d'"
  "(\<forall>x. \<exists>c. enc x = Inr c) \<Longrightarrow> \<exists>v'. encryptValue enc v = Inr v'"
  "(\<forall>x. \<exists>c. enc x = Inr c) \<Longrightarrow> \<exists>fs. encryptEntries enc es = Inr fs"
  "(\<forall>x. \<exists>c. enc x = Inr c) \<Longrightarrow> \<exists>ys. encryptElems enc xs = Inr ys"
proof (induction enc d and enc v and enc es and enc xs
    rule: encryptDeep_encryptValue_encryptEntries_encryptElems.induct)
  case (9 enc v)
  from 9(2) obtain c where "enc (prop_of v ''%allot'') = Inr c" by blast
  with 9 show ?case by auto
qed (auto simp del: encryptValue.simps)

section \<open>Object literals and numerals\<close>

lemma map_of_set_prop: "map_of (set_prop k v es) = (map_of es)(k \<mapsto> v)"
  by (induction es) (auto simp: fun_eq_iff)

lemma map_of_foldl_set_prop:
  "map_of (foldl (\<lambda>acc (k, v). set_prop k v acc) acc kvs) = map_of acc ++ map_of (rev kvs)"
proof (induction kvs arbitrary: acc)
  case Nil
  then show ?case by simp
next
  case (Cons kv kvs)
  obtain k v where kv: "kv = (k, v)" by (cases kv)
  show ?case
    by (simp add: Cons.IH kv map_of_set_prop fun_eq_iff map_add_def split: option.splits)
qed

lemma prop_of_object_literal:
  "prop_of (object_literal kvs) k = (case map_of (rev kvs) k of Some x \<Rightarrow> x | None \<Rightarrow> JUndefined)"
  by (simp add: object_literal_def map_of_foldl_set_prop)

lemma prop_of_object_literal_last: "prop_of (object_literal (kvs @ [(k, v)])) k = v"
  by (simp add: prop_of_object_literal)

lemma prop_of_object_literal_other:
  "k' \<noteq> k \<Longrightarrow> prop_of (object_literal (kvs @ [(k, v)])) k' = prop_of (object_literal kvs) k'"
  by (simp add: prop_of_object_literal)

lemma set_prop_fresh: "k \<notin> fst ` set es \<Longrightarrow> set_prop k v es = es @ [(k, v)]"
  by (induction es) auto

lemma foldl_set_prop_distinct:
  "distinct (map fst (acc @ kvs)) \<Longrightarrow> foldl (\<lambda>acc (k, v). set_prop k v acc) acc kvs = acc @ kvs"
proof (induction kvs arbitrary: acc)
  case Nil
  then show ?case by simp
next
  case (Cons kv kvs)
  obtain k v where kv: "kv = (k, v)" by (cases kv)
  from Cons.prems kv have fresh: "k \<notin> fst ` set acc" by auto
  from Cons.prems kv have "distinct (map fst ((acc @ [(k, v)]) @ kvs))" by simp
  from Cons.IH [OF this] show ?case
    by (simp add: kv set_prop_fresh [OF fresh])
qed

lemma object_literal_distinct: "distinct (map fst es) \<Longrightarrow> object_literal es = JObj es"
  using foldl_set_prop_distinct [of "[]" es] by (simp add: object_literal_def)

lemma set_prop_keys: "set (map fst (set_prop k v es)) = insert k (set (map fst es))"
proof (induction es)
  case Nil
  then show ?case by simp
next
  case (Cons e es)
  obtain k' v' where e: "e = (k', v')" by (cases e)
  show ?case
  proof (cases "k = k'")
    case True
    then show ?thesis by (simp add: e)
  next
    case False
    then have "set (map fst (set_prop k v (e # es))) = insert k' (set (map fst (set_prop k v es)))"
      by (simp add: e)
    also have "\<dots> = insert k' (insert k (set (map fst es)))"
      by (simp only: Cons.IH)
    finally show ?thesis by (simp add: e insert_commute)
  qed
qed

lemma set_prop_distinct: "distinct (map fst es) \<Longrightarrow> distinct (map fst (set_prop k v es))"
proof (induction es)
  case Nil
  then show ?case by simp
next
  case (Cons e es)
  obtain k' v' where e: "e = (k', v')" by (cases e)
  from Cons have "distinct (map fst (set_prop k v es))" by simp
  moreover from Cons.prems e have "k' \<notin> set (map fst es)" by simp
  ultimately show ?case
    using Cons.prems e set_prop_keys [of k v es] by auto
qed

lemma foldl_set_prop_keeps_distinct:
  "distinct (map fst acc) \<Longrightarrow> distinct (map fst (foldl (\<lambda>acc (k, v). set_prop k v acc) acc kvs))"
  by (induction kvs arbitrary: acc) (auto simp: set_prop_distinct)

lemma object_literal_is_object:
  "\<exists>es. object_literal kvs = JObj es \<and> distinct (map fst es)"
  by (simp add: object_literal_def foldl_set_prop_keeps_distinct)

lemma makeRequest_result_object:
  assumes "makeRequest E u ep t p m = Inr r"
  shows "\<exists>es. r = JObj es \<and> distinct (map fst es)"
  using assms object_literal_is_object
  by (auto simp: makeRequest_def makeRequest_try_def makeRequest_catch_def Let_def
      split: sum.splits if_splits option.splits)

lemma is_digit_char_of: "(d::nat) < 10 \<Longrightarrow> is_digit (char_of (48 + d))"
  by (simp add: is_digit_def)

lemma show_digits_digits: "list_all is_digit (show_digits n)"
proof (induction n rule: show_digits.induct)
  case (1 n)
  show ?case
  proof (cases "n < 10")
    case True
    then show ?thesis by (subst show_digits.simps) (simp add: is_digit_char_of)
  next
    case False
    with 1 have "list_all is_digit (show_digits (n div 10))" by simp
    moreover have "is_digit (char_of (48 + n mod 10))" by (rule is_digit_char_of) simp
    ultimately show ?thesis using False by (subst show_digits.simps) simp
  qed
qed

lemma show_digits_nonempty: "show_digits n \<noteq> []"
  by (subst show_digits.simps) simp

lemma decimal_append: "decimal (ds @ [c]) = 10 * decimal ds + (of_char c - 48)"
  by (simp add: decimal_def)

lemma decimal_show_digits: "decimal (show_digits n) = n"
proof (induction n rule: show_digits.induct)
  case (1 n)
  show ?case
  proof (cases "n < 10")
    case True
    then show ?thesis by (subst show_digits.simps) (simp add: decimal_def)
  next
    case False
    with 1 have "decimal (show_digits (n div 10)) = n div 10" by simp
    then show ?thesis using False
      by (subst show_digits.simps) (simp add: decimal_append)
  qed
qed

lemma takeWhile_digits:
  "list_all is_digit ds \<Longrightarrow> \<not> is_digit c \<Longrightarrow> takeWhile is_digit (ds @ c # rest) = ds"
  by (induction ds) simp_all

lemma match_status_http:
  "match_status (''HTTP error! status: '' @ show_digits n @ '', body: '' @ text) = Some (show_digits n)"
proof -
  have "takeWhile is_digit (show_digits n @ CHR '','' # '' body: '' @ text) = show_digits n"
    by (rule takeWhile_digits) (simp_all add: show_digits_digits is_digit_def)
  then show ?thesis
    using show_digits_nonempty [of n] by (simp add: starts_with_def)
qed

section \<open>Properties of makeRequest\<close>

lemma makeRequest_try_not_ok:
  assumes "fetch E \<lparr> req_url = nodeUrl @ ''/api/v1/'' @ endpoint, req_method = method,
                     req_token = token,
                     req_body = (if method = ''GET'' then None else Some payload) \<rparr> = Inr r"
    and "\<not> ok r" and "body_text r = Inr text"
  shows "makeRequest_try E nodeUrl endpoint token payload method =
         Inl (Error (''HTTP error! status: '' @ show_digits (status r) @ '', body: '' @ text))"
  using assms by (simp add: makeRequest_try_def)

lemma makeRequest_caught:
  "makeRequest_try E nodeUrl endpoint token payload method = Inl err \<Longrightarrow>
   makeRequest E nodeUrl endpoint token payload method = makeRequest_catch E err"
  by (simp add: makeRequest_def)

text \<open>
  The handler returns \<^verbatim>\<open>{ status, error }\<close> unless \<^verbatim>\<open>JSON.parse\<close> throws on the text
  that the second regular expression captured; it then throws what \<^verbatim>\<open>JSON.parse\<close>
  threw.
\<close>

lemma makeRequest_catch_cases:
  "(\<exists>b e. match_body (message err) = Some b \<and> JSON_parse E b = Inl e \<and>
          makeRequest_catch E err = Inl e) \<or>
   (\<exists>st er. makeRequest_catch E err = Inr (JObj [(''status'', st), (''error'', er)]))"
  by (auto simp: makeRequest_catch_def Let_def split: option.splits sum.splits)

lemma makeRequest_throws:
  assumes "makeRequest_try E nodeUrl endpoint token payload method = Inl err"
    and "match_body (message err) = Some b" and "JSON_parse E b = Inl e"
  shows "makeRequest E nodeUrl endpoint token payload method = Inl e"
  using assms by (simp add: makeRequest_def makeRequest_catch_def)

lemma makeRequest_failure_without_body:
  assumes "makeRequest_try E nodeUrl endpoint token payload method = Inl err"
    and "match_body (message err) = None"
  shows "makeRequest E nodeUrl endpoint token payload method =
         Inr (JObj [(''status'',
                     case match_status (message err) of
                       Some ds \<Rightarrow> Number_parseInt E ds | None \<Rightarrow> JNull),
                    (''error'', JObj [(''errors'', JArr [JErr err])])])"
  using assms by (simp add: makeRequest_def makeRequest_catch_def)

lemma makeRequest_failure_with_body:
  assumes "makeRequest_try E nodeUrl endpoint token payload method = Inl err"
    and "match_body (message err) = Some b" and "JSON_parse E b = Inr parsed"
  shows "makeRequest E nodeUrl endpoint token payload method =
         Inr (JObj [(''status'',
                     case match_status (message err) of
                       Some ds \<Rightarrow> Number_parseInt E ds | None \<Rightarrow> JNull),
                    (''error'', parsed)])"
  using assms by (simp add: makeRequest_def makeRequest_catch_def)

text \<open>
  The status that the handler reports for a response that is not ok is what
  \<^verbatim>\<open>Number.parseInt\<close> makes of the decimal digits of the HTTP status.
\<close>

lemma makeRequest_not_ok_status:
  assumes "fetch E \<lparr> req_url = nodeUrl @ ''/api/v1/'' @ endpoint, req_method = method,
                     req_token = token,
                     req_body = (if method = ''GET'' then None else Some payload) \<rparr> = Inr r"
    and "\<not> ok r" and "body_text r = Inr text"
    and "makeRequest E nodeUrl endpoint token payload method = Inr res"
  shows "prop_of res ''status'' = Number_parseInt E (show_digits (status r))"
proof -
  let ?err = "Error (''HTTP error! status: '' @ show_digits (status r) @ '', body: '' @ text)"
  define mb where "mb = match_body (message ?err)"
  from makeRequest_try_not_ok [OF assms(1-3)]
  have "makeRequest E nodeUrl endpoint token payload method = makeRequest_catch E ?err"
    by (rule makeRequest_caught)
  with assms(4) have "makeRequest_catch E ?err = Inr res" by simp
  then have "(case mb of
                Some b \<Rightarrow>
                  (case JSON_parse E b of
                     Inl e \<Rightarrow> Inl e
                   | Inr parsed \<Rightarrow>
                       Inr (JObj [(''status'', Number_parseInt E (show_digits (status r))),
                                  (''error'', parsed)]))
              | None \<Rightarrow>
                  Inr (JObj [(''status'', Number_parseInt E (show_digits (status r))),
                             (''error'', JObj [(''errors'', JArr [JErr ?err])])])) = Inr res"
    unfolding mb_def
    by (simp only: makeRequest_catch_def Let_def message.simps match_status_http option.case)
  then show ?thesis by (cases mb) (auto split: sum.splits)
qed

lemma sample_parseInt_show_digits: "sample_parseInt (show_digits n) = JNum (int n)"
  by (simp add: sample_parseInt_def decimal_show_digits)

text \<open>
  C9. A node answers the request of a write with the status 500 and the body
  \<^verbatim>\<open>{a}\<close>, and the token of the node was generated. The \<^verbatim>\<open>try\<close> part throws the
  error \<^verbatim>\<open>HTTP error! status: 500, body: {a}\<close>; in the handler the second regular
  expression captures \<^verbatim>\<open>{a}\<close>, on which \<^verbatim>\<open>JSON.parse\<close> throws; so makeRequest
  throws that SyntaxError instead of returning \<^verbatim>\<open>{ status: 500, error }\<close>, the leg
  of the node rejects, and the outcome of the node is \<^verbatim>\<open>{ error, node }\<close>, in which
  the status is lost.
\<close>

theorem makeRequest_throws_on_unparsable_body:
  "generateNodeToken sample_env (did node_b) = Inr ''jwt-for-did:nil:b'' \<and>
   fetch sample_env
     \<lparr> req_url = ''https://b.example/api/v1/data/create'', req_method = ''POST'',
       req_token = ''jwt-for-did:nil:b'',
       req_body = Some (JObj [(''schema'', JStr ''schema-1''), (''data'', JArr [])]) \<rparr>
     = Inr \<lparr> status = 500, content_type = Some ''text/plain'', body_text = Inr ''{a}'' \<rparr> \<and>
   makeRequest_try sample_env (url node_b) ''data/create'' ''jwt-for-did:nil:b''
       (JObj [(''schema'', JStr ''schema-1''), (''data'', JArr [])]) ''POST''
     = Inl (Error ''HTTP error! status: 500, body: {a}'') \<and>
   match_status ''HTTP error! status: 500, body: {a}'' = Some ''500'' \<and>
   match_body ''HTTP error! status: 500, body: {a}'' = Some ''{a}'' \<and>
   JSON_parse sample_env ''{a}'' = Inl (SyntaxError ''Unexpected token in JSON'') \<and>
   makeRequest sample_env (url node_b) ''data/create'' ''jwt-for-did:nil:b''
       (JObj [(''schema'', JStr ''schema-1''), (''data'', JArr [])]) ''POST''
     = Inl (SyntaxError ''Unexpected token in JSON'') \<and>
   writeDataToNode sample_env (sample_vault [node_b]) [] node_b 0
     = Rejected (SyntaxError ''Unexpected token in JSON'') node_b \<and>
   writeToNodes sample_env sample_nilql (sample_vault [node_b]) 0 []
     = Inr ([JObj [(''error'', JErr (SyntaxError ''Unexpected token in JSON'')),
                   (''node'', node_val node_b)]], 0)"
  by code_simp

section \<open>Properties of the fan-out\<close>

lemma nth_legs:
  "i < length ns \<Longrightarrow>
   map g (map (\<lambda>(n, index). f n index) (zip ns [0..<length ns])) ! i = g (f (ns ! i) i)"
  by simp

text \<open>
  The outcome of a leg, from the token of its node and from what makeRequest does
  with that token.
\<close>

lemma leg_outcome:
  assumes "s = (case tok of
                  Inl e \<Rightarrow> Rejected e n
                | Inr jwt \<Rightarrow> (case req jwt of Inl e \<Rightarrow> Rejected e n | Inr result \<Rightarrow> Fulfilled result n))"
  shows "outcome s =
           (case tok of
              Inl e \<Rightarrow> JObj [(''error'', JErr e), (''node'', node_val n)]
            | Inr jwt \<Rightarrow>
                (case req jwt of
                   Inl e \<Rightarrow> JObj [(''error'', JErr e), (''node'', node_val n)]
                 | Inr result \<Rightarrow> object_literal (spread_props result @ [(''node'', node_val n)])))"
    and "write_outcome V s =
           (case tok of
              Inl e \<Rightarrow> JObj [(''error'', JErr e), (''node'', node_val n)]
            | Inr jwt \<Rightarrow>
                (case req jwt of
                   Inl e \<Rightarrow> JObj [(''error'', JErr e), (''node'', node_val n)]
                 | Inr result \<Rightarrow>
                     object_literal (spread_props result @
                                     [(''node'', node_val n), (''schemaId'', schemaId V)])))"
    and "prop_of (outcome s) ''node'' = node_val n"
    and "prop_of (write_outcome V s) ''node'' = node_val n"
  using assms by (auto split: sum.splits simp: prop_of_object_literal)

text \<open>
  The outcome of a leg whose request failed: makeRequest threw in its handler and the
  leg rejected, or makeRequest returned \<^verbatim>\<open>{ status, error }\<close> and the leg fulfilled.
\<close>

lemma failed_leg_outcome:
  assumes s: "s = (case req of Inl e \<Rightarrow> Rejected e n | Inr result \<Rightarrow> Fulfilled result n)"
    and req: "req = makeRequest_catch E err"
  shows "(\<exists>e. outcome s = JObj [(''error'', JErr e), (''node'', node_val n)]) \<or>
         (\<exists>st er. outcome s = JObj [(''status'', st), (''error'', er), (''node'', node_val n)])"
    and "(\<exists>e. write_outcome V s = JObj [(''error'', JErr e), (''node'', node_val n)]) \<or>
         (\<exists>st er. write_outcome V s =
                    JObj [(''status'', st), (''error'', er), (''node'', node_val n),
                          (''schemaId'', schemaId V)])"
  using makeRequest_catch_cases [of err E] unfolding s req
  by (auto simp: object_literal_def)

text \<open>
  C3. Let \<open>i\<close> be the position of a configured node. flushData and
  deleteDataFromNodes return one outcome for each node, and so do updateDataToNodes and
  writeToNodes unless allotment (or, for a write, reading \<^verbatim>\<open>_id\<close>) threw before
  the fan-out began, which is the only way either throws. Outcome \<open>i\<close> carries the
  descriptor of node \<open>i\<close> and is determined by node \<open>i\<close> alone: when the token of
  node \<open>i\<close> cannot be generated it is \<^verbatim>\<open>{ error, node }\<close> with the error of the
  token; when makeRequest throws for node \<open>i\<close> it is \<^verbatim>\<open>{ error, node }\<close> with what
  was thrown; when makeRequest returns it is \<^verbatim>\<open>{ ...result, node }\<close> (and
  \<^verbatim>\<open>schemaId\<close> for a write). In particular, when the request of node \<open>i\<close> fails
  (\<^verbatim>\<open>fetch\<close> rejects, the response is not ok, or its body cannot be read or parsed),
  outcome \<open>i\<close> is \<^verbatim>\<open>{ error, node }\<close> or \<^verbatim>\<open>{ status, error, node }\<close>.
\<close>

theorem fan_out_outcomes:
  assumes "i < length (nodes V)"
  shows
    "(length (flushData E V) = length (nodes V) \<and>
      prop_of (flushData E V ! i) ''node'' = node_val (nodes V ! i) \<and>
      flushData E V ! i =
        (case generateNodeToken E (did (nodes V ! i)) of
           Inl e \<Rightarrow> JObj [(''error'', JErr e), (''node'', node_val (nodes V ! i))]
         | Inr jwt \<Rightarrow>
             (case makeRequest E (url (nodes V ! i)) ''data/flush'' jwt
                     (JObj [(''schema'', schemaId V)]) ''POST'' of
                Inl e \<Rightarrow> JObj [(''error'', JErr e), (''node'', node_val (nodes V ! i))]
              | Inr result \<Rightarrow>
                  object_literal (spread_props result @ [(''node'', node_val (nodes V ! i))]))) \<and>
      (\<forall>jwt err.
         generateNodeToken E (did (nodes V ! i)) = Inr jwt \<and>
         makeRequest_try E (url (nodes V ! i)) ''data/flush'' jwt
           (JObj [(''schema'', schemaId V)]) ''POST'' = Inl err \<longrightarrow>
         (\<exists>e. flushData E V ! i = JObj [(''error'', JErr e), (''node'', node_val (nodes V ! i))]) \<or>
         (\<exists>st er. flushData E V ! i =
                    JObj [(''status'', st), (''error'', er), (''node'', node_val (nodes V ! i))]))) \<and>
     (length (deleteDataFromNodes E V f) = length (nodes V) \<and>
      prop_of (deleteDataFromNodes E V f ! i) ''node'' = node_val (nodes V ! i) \<and>
      deleteDataFromNodes E V f ! i =
        (case generateNodeToken E (did (nodes V ! i)) of
           Inl e \<Rightarrow> JObj [(''error'', JErr e), (''node'', node_val (nodes V ! i))]
         | Inr jwt \<Rightarrow>
             (case makeRequest E (url (nodes V ! i)) ''data/delete'' jwt
                     (JObj [(''schema'', schemaId V), (''filter'', default_filter f)]) ''POST'' of
                Inl e \<Rightarrow> JObj [(''error'', JErr e), (''node'', node_val (nodes V ! i))]
              | Inr result \<Rightarrow>
                  object_literal (spread_props result @ [(''node'', node_val (nodes V ! i))]))) \<and>
      (\<forall>jwt err.
         generateNodeToken E (did (nodes V ! i)) = Inr jwt \<and>
         makeRequest_try E (url (nodes V ! i)) ''data/delete'' jwt
           (JObj [(''schema'', schemaId V), (''filter'', default_filter f)]) ''POST'' = Inl err \<longrightarrow>
         (\<exists>e. deleteDataFromNodes E V f ! i =
                JObj [(''error'', JErr e), (''node'', node_val (nodes V ! i))]) \<or>
         (\<exists>st er. deleteDataFromNodes E V f ! i =
                    JObj [(''status'', st), (''error'', er), (''node'', node_val (nodes V ! i))]))) \<and>
     (case updateDataToNodes E L V u f of
        Inl err \<Rightarrow> allotData L V [u] = Inl err
      | Inr results \<Rightarrow>
          (\<exists>td. allotData L V [u] = Inr td \<and>
             length results = length (nodes V) \<and>
             prop_of (results ! i) ''node'' = node_val (nodes V ! i) \<and>
             results ! i =
               (case generateNodeToken E (did (nodes V ! i)) of
                  Inl e \<Rightarrow> JObj [(''error'', JErr e), (''node'', node_val (nodes V ! i))]
                | Inr jwt \<Rightarrow>
                    (case makeRequest E (url (nodes V ! i)) ''data/update'' jwt
                            (JObj [(''schema'', schemaId V),
                                   (''update'',
                                    JObj [(''$set'', js_nth (map (nodeShare V i) td) 0)]),
                                   (''filter'', default_filter f)]) ''POST'' of
                       Inl e \<Rightarrow> JObj [(''error'', JErr e), (''node'', node_val (nodes V ! i))]
                     | Inr result \<Rightarrow>
                         object_literal
                           (spread_props result @ [(''node'', node_val (nodes V ! i))]))) \<and>
             (\<forall>jwt err.
                generateNodeToken E (did (nodes V ! i)) = Inr jwt \<and>
                makeRequest_try E (url (nodes V ! i)) ''data/update'' jwt
                  (JObj [(''schema'', schemaId V),
                         (''update'', JObj [(''$set'', js_nth (map (nodeShare V i) td) 0)]),
                         (''filter'', default_filter f)]) ''POST'' = Inl err \<longrightarrow>
                (\<exists>e. results ! i = JObj [(''error'', JErr e), (''node'', node_val (nodes V ! i))]) \<or>
                (\<exists>st er. results ! i =
                           JObj [(''status'', st), (''error'', er),
                                 (''node'', node_val (nodes V ! i))])))) \<and>
     (case writeToNodes E L V k data of
        Inl err \<Rightarrow>
          idData E k data = Inl err \<or>
          (\<exists>ids k'. idData E k data = Inr (ids, k') \<and> allotData L V ids = Inl err)
      | Inr (results, k') \<Rightarrow>
          (\<exists>ids td. idData E k data = Inr (ids, k') \<and> allotData L V ids = Inr td \<and>
             length results = length (nodes V) \<and>
             prop_of (results ! i) ''node'' = node_val (nodes V ! i) \<and>
             results ! i =
               (case generateNodeToken E (did (nodes V ! i)) of
                  Inl e \<Rightarrow> JObj [(''error'', JErr e), (''node'', node_val (nodes V ! i))]
                | Inr jwt \<Rightarrow>
                    (case makeRequest E (url (nodes V ! i)) ''data/create'' jwt
                            (JObj [(''schema'', schemaId V),
                                   (''data'', JArr (map (nodeShare V i) td))]) ''POST'' of
                       Inl e \<Rightarrow> JObj [(''error'', JErr e), (''node'', node_val (nodes V ! i))]
                     | Inr result \<Rightarrow>
                         object_literal
                           (spread_props result @
                            [(''node'', node_val (nodes V ! i)), (''schemaId'', schemaId V)]))) \<and>
             (\<forall>jwt err.
                generateNodeToken E (did (nodes V ! i)) = Inr jwt \<and>
                makeRequest_try E (url (nodes V ! i)) ''data/create'' jwt
                  (JObj [(''schema'', schemaId V), (''data'', JArr (map (nodeShare V i) td))])
                  ''POST'' = Inl err \<longrightarrow>
                (\<exists>e. results ! i = JObj [(''error'', JErr e), (''node'', node_val (nodes V ! i))]) \<or>
                (\<exists>st er. results ! i =
                           JObj [(''status'', st), (''error'', er),
                                 (''node'', node_val (nodes V ! i)),
                                 (''schemaId'', schemaId V)]))))"
  (is "?flush \<and> ?delete \<and> ?update \<and> ?write")
proof -
  let ?n = "nodes V ! i"
  let ?tok = "generateNodeToken E (did ?n)"
  have fl: "?flush"
  proof -
    let ?req = "\<lambda>jwt. makeRequest E (url ?n) ''data/flush'' jwt (JObj [(''schema'', schemaId V)]) ''POST''"
    have nth: "flushData E V ! i = outcome (flushDataFromNode E V ?n)"
      using assms by (simp add: flushData_def)
    have leg: "flushDataFromNode E V ?n =
                 (case ?tok of
                    Inl e \<Rightarrow> Rejected e ?n
                  | Inr jwt \<Rightarrow>
                      (case ?req jwt of Inl e \<Rightarrow> Rejected e ?n | Inr result \<Rightarrow> Fulfilled result ?n))"
      by (simp add: flushDataFromNode_def)
    have failed: "(\<exists>e. outcome (flushDataFromNode E V ?n) = JObj [(''error'', JErr e), (''node'', node_val ?n)]) \<or>
                  (\<exists>st er. outcome (flushDataFromNode E V ?n) =
                             JObj [(''status'', st), (''error'', er), (''node'', node_val ?n)])"
      if "?tok = Inr jwt" and "makeRequest_try E (url ?n) ''data/flush'' jwt
                                 (JObj [(''schema'', schemaId V)]) ''POST'' = Inl err" for jwt err
      by (rule failed_leg_outcome(1) [where req = "?req jwt" and E = E and err = err])
         (simp_all add: leg that makeRequest_caught)
    show ?thesis
      unfolding nth
      using leg_outcome(1,3) [OF leg] failed by (simp add: flushData_def)
  qed
  have dl: "?delete"
  proof -
    let ?req = "\<lambda>jwt. makeRequest E (url ?n) ''data/delete'' jwt
                        (JObj [(''schema'', schemaId V), (''filter'', default_filter f)]) ''POST''"
    have nth: "deleteDataFromNodes E V f ! i = outcome (deleteDataFromNode E V (default_filter f) ?n)"
      using assms by (simp add: deleteDataFromNodes_def)
    have leg: "deleteDataFromNode E V (default_filter f) ?n =
                 (case ?tok of
                    Inl e \<Rightarrow> Rejected e ?n
                  | Inr jwt \<Rightarrow>
                      (case ?req jwt of Inl e \<Rightarrow> Rejected e ?n | Inr result \<Rightarrow> Fulfilled result ?n))"
      by (simp add: deleteDataFromNode_def)
    have failed: "(\<exists>e. outcome (deleteDataFromNode E V (default_filter f) ?n) =
                        JObj [(''error'', JErr e), (''node'', node_val ?n)]) \<or>
                  (\<exists>st er. outcome (deleteDataFromNode E V (default_filter f) ?n) =
                             JObj [(''status'', st), (''error'', er), (''node'', node_val ?n)])"
      if "?tok = Inr jwt" and "makeRequest_try E (url ?n) ''data/delete'' jwt
            (JObj [(''schema'', schemaId V), (''filter'', default_filter f)]) ''POST'' = Inl err"
      for jwt err
      by (rule failed_leg_outcome(1) [where req = "?req jwt" and E = E and err = err])
         (simp_all add: leg that makeRequest_caught)
    show ?thesis
      unfolding nth
      using leg_outcome(1,3) [OF leg] failed by (simp add: deleteDataFromNodes_def)
  qed
  have up: "?update"
  proof (cases "allotData L V [u]")
    case (Inl err)
    then show ?thesis by (simp add: updateDataToNodes_def)
  next
    case (Inr td)
    let ?payload = "JObj [(''schema'', schemaId V),
                          (''update'', JObj [(''$set'', js_nth (map (nodeShare V i) td) 0)]),
                          (''filter'', default_filter f)]"
    let ?req = "\<lambda>jwt. makeRequest E (url ?n) ''data/update'' jwt ?payload ''POST''"
    let ?leg = "updateDataOnNode E V td (default_filter f) ?n i"
    let ?res = "map outcome
                 (map (\<lambda>(n, index). updateDataOnNode E V td (default_filter f) n index)
                    (zip (nodes V) [0..<length (nodes V)]))"
    have eq: "updateDataToNodes E L V u f = Inr ?res"
      using Inr by (simp add: updateDataToNodes_def)
    have nth: "?res ! i = outcome ?leg"
      using assms by (rule nth_legs)
    have leg: "?leg =
                 (case ?tok of
                    Inl e \<Rightarrow> Rejected e ?n
                  | Inr jwt \<Rightarrow>
                      (case ?req jwt of Inl e \<Rightarrow> Rejected e ?n | Inr result \<Rightarrow> Fulfilled result ?n))"
      by (simp add: updateDataOnNode_def Let_def split: sum.splits)
    have failed: "(\<exists>e. outcome ?leg = JObj [(''error'', JErr e), (''node'', node_val ?n)]) \<or>
                  (\<exists>st er. outcome ?leg =
                             JObj [(''status'', st), (''error'', er), (''node'', node_val ?n)])"
      if "?tok = Inr jwt" and "makeRequest_try E (url ?n) ''data/update'' jwt ?payload ''POST'' = Inl err"
      for jwt err
      by (rule failed_leg_outcome(1) [where req = "?req jwt" and E = E and err = err])
         (simp_all add: leg that makeRequest_caught)
    show ?thesis
      unfolding eq
    proof (simp only: sum.case, intro exI [of _ td] conjI)
      show "allotData L V [u] = Inr td" by (rule Inr)
      show "length ?res = length (nodes V)" by simp
      show "prop_of (?res ! i) ''node'' = node_val ?n"
        unfolding nth by (rule leg_outcome(3) [OF leg])
      show "?res ! i =
               (case ?tok of
                  Inl e \<Rightarrow> JObj [(''error'', JErr e), (''node'', node_val ?n)]
                | Inr jwt \<Rightarrow>
                    (case ?req jwt of
                       Inl e \<Rightarrow> JObj [(''error'', JErr e), (''node'', node_val ?n)]
                     | Inr result \<Rightarrow>
                         object_literal (spread_props result @ [(''node'', node_val ?n)])))"
        unfolding nth by (rule leg_outcome(1) [OF leg])
      show "\<forall>jwt err.
                ?tok = Inr jwt \<and>
                makeRequest_try E (url ?n) ''data/update'' jwt ?payload ''POST'' = Inl err \<longrightarrow>
                (\<exists>e. ?res ! i = JObj [(''error'', JErr e), (''node'', node_val ?n)]) \<or>
                (\<exists>st er. ?res ! i =
                           JObj [(''status'', st), (''error'', er), (''node'', node_val ?n)])"
        unfolding nth using failed by blast
    qed
  qed
  have wr: "?write"
  proof (cases "idData E k data")
    case (Inl err)
    then show ?thesis by (simp add: writeToNodes_def)
  next
    case (Inr p)
    obtain ids k' where p: "p = (ids, k')" by (cases p)
    show ?thesis
    proof (cases "allotData L V ids")
      case (Inl err)
      with Inr p show ?thesis by (simp add: writeToNodes_def)
    next
      case td: (Inr td)
      let ?payload = "JObj [(''schema'', schemaId V), (''data'', JArr (map (nodeShare V i) td))]"
      let ?req = "\<lambda>jwt. makeRequest E (url ?n) ''data/create'' jwt ?payload ''POST''"
      let ?leg = "writeDataToNode E V td ?n i"
      let ?res = "map (write_outcome V)
                   (map (\<lambda>(n, index). writeDataToNode E V td n index)
                      (zip (nodes V) [0..<length (nodes V)]))"
      have eq: "writeToNodes E L V k data = Inr (?res, k')"
        using Inr p td by (simp add: writeToNodes_def)
      have nth: "?res ! i = write_outcome V ?leg"
        using assms by (rule nth_legs)
      have leg: "?leg =
                   (case ?tok of
                      Inl e \<Rightarrow> Rejected e ?n
                    | Inr jwt \<Rightarrow>
                        (case ?req jwt of Inl e \<Rightarrow> Rejected e ?n | Inr result \<Rightarrow> Fulfilled result ?n))"
        by (simp add: writeDataToNode_def Let_def split: sum.splits)
      have failed: "(\<exists>e. write_outcome V ?leg = JObj [(''error'', JErr e), (''node'', node_val ?n)]) \<or>
                    (\<exists>st er. write_outcome V ?leg =
                               JObj [(''status'', st), (''error'', er), (''node'', node_val ?n),
                                     (''schemaId'', schemaId V)])"
        if "?tok = Inr jwt" and "makeRequest_try E (url ?n) ''data/create'' jwt ?payload ''POST'' = Inl err"
        for jwt err
        by (rule failed_leg_outcome(2) [where req = "?req jwt" and E = E and err = err])
           (simp_all add: leg that makeRequest_caught)
      show ?thesis
        unfolding eq
      proof (simp only: sum.case prod.case, intro exI [of _ ids] exI [of _ td] conjI)
        show "idData E k data = Inr (ids, k')" using Inr p by simp
        show "allotData L V ids = Inr td" by (rule td)
        show "length ?res = length (nodes V)" by simp
        show "prop_of (?res ! i) ''node'' = node_val ?n"
          unfolding nth by (rule leg_outcome(4) [OF leg])
        show "?res ! i =
               (case ?tok of
                  Inl e \<Rightarrow> JObj [(''error'', JErr e), (''node'', node_val ?n)]
                | Inr jwt \<Rightarrow>
                    (case ?req jwt of
                       Inl e \<Rightarrow> JObj [(''error'', JErr e), (''node'', node_val ?n)]
                     | Inr result \<Rightarrow>
                         object_literal
                           (spread_props result @
                            [(''node'', node_val ?n), (''schemaId'', schemaId V)])))"
          unfolding nth by (rule leg_outcome(2) [OF leg])
        show "\<forall>jwt err.
                ?tok = Inr jwt \<and>
                makeRequest_try E (url ?n) ''data/create'' jwt ?payload ''POST'' = Inl err \<longrightarrow>
                (\<exists>e. ?res ! i = JObj [(''error'', JErr e), (''node'', node_val ?n)]) \<or>
                (\<exists>st er. ?res ! i =
                           JObj [(''status'', st), (''error'', er), (''node'', node_val ?n),
                                 (''schemaId'', schemaId V)])"
          unfolding nth using failed by blast
      qed
    qed
  qed
  show ?thesis by (rule conjI [OF fl conjI [OF dl conjI [OF up wr]]])
qed

theorem fan_out_outcomes_witness:
  "(2::nat) < length (nodes (sample_vault [node_a, node_b, node_c, node_d])) \<and>
   generateNodeToken sample_env (did node_c) = Inr ''jwt-for-did:nil:c'' \<and>
   makeRequest_try sample_env (url node_c) ''data/flush'' ''jwt-for-did:nil:c''
       (JObj [(''schema'', JStr ''schema-1'')]) ''POST''
     = Inl (Error (''HTTP error! status: 401, body: '' @ denied_text)) \<and>
   length (flushData sample_env (sample_vault [node_a, node_b, node_c, node_d])) = 4 \<and>
   prop_of (flushData sample_env (sample_vault [node_a, node_b, node_c, node_d]) ! 2) ''node''
     = node_val node_c \<and>
   flushData sample_env (sample_vault [node_a, node_b, node_c, node_d]) ! 2
     = JObj [(''status'', JNum 401), (''error'', JObj [(''errors'', JArr [JStr ''denied''])]),
             (''node'', node_val node_c)] \<and>
   generateNodeToken sample_env (did node_d) = Inl (Error ''invalid private key'') \<and>
   flushData sample_env (sample_vault [node_a, node_b, node_c, node_d]) ! 3
     = JObj [(''error'', JErr (Error ''invalid private key'')), (''node'', node_val node_d)]"
proof -
  let ?V = "sample_vault [node_a, node_b, node_c, node_d]"
  have i2: "(2::nat) < length (nodes ?V)" and i3: "(3::nat) < length (nodes ?V)"
    by (simp_all add: sample_vault_def)
  have n2: "nodes ?V ! 2 = node_c" and n3: "nodes ?V ! 3 = node_d"
    and sch: "schemaId ?V = JStr ''schema-1''"
    by (simp_all add: sample_vault_def)
  have tok2: "generateNodeToken sample_env (did node_c) = Inr ''jwt-for-did:nil:c''"
    by code_simp
  have tok3: "generateNodeToken sample_env (did node_d) = Inl (Error ''invalid private key'')"
    by code_simp
  have try2: "makeRequest_try sample_env (url node_c) ''data/flush'' ''jwt-for-did:nil:c''
                (JObj [(''schema'', JStr ''schema-1'')]) ''POST''
              = Inl (Error (''HTTP error! status: 401, body: '' @ denied_text))"
    by code_simp
  have req2: "makeRequest sample_env (url node_c) ''data/flush'' ''jwt-for-did:nil:c''
                (JObj [(''schema'', JStr ''schema-1'')]) ''POST''
              = Inr (JObj [(''status'', JNum 401),
                           (''error'', JObj [(''errors'', JArr [JStr ''denied''])])])"
    by code_simp
  have lit: "object_literal
               (spread_props (JObj [(''status'', JNum 401),
                                    (''error'', JObj [(''errors'', JArr [JStr ''denied''])])]) @
                [(''node'', node_val node_c)])
             = JObj [(''status'', JNum 401), (''error'', JObj [(''errors'', JArr [JStr ''denied''])]),
                     (''node'', node_val node_c)]"
    by (simp add: object_literal_def)
  note at2 = fan_out_outcomes [OF i2, of sample_env, THEN conjunct1,
      unfolded n2 sch tok2 req2 lit sum.case]
  note at3 = fan_out_outcomes [OF i3, of sample_env, THEN conjunct1, unfolded n3 tok3 sum.case]
  from at2
  have "length (flushData sample_env ?V) = length (nodes ?V)"
    and "prop_of (flushData sample_env ?V ! 2) ''node'' = node_val node_c"
    and "flushData sample_env ?V ! 2
           = JObj [(''status'', JNum 401), (''error'', JObj [(''errors'', JArr [JStr ''denied''])]),
                   (''node'', node_val node_c)]"
    by blast+
  moreover from at3
  have "flushData sample_env ?V ! 3
          = JObj [(''error'', JErr (Error ''invalid private key'')), (''node'', node_val node_d)]"
    by blast
  moreover have "length (nodes ?V) = 4" by (simp add: sample_vault_def)
  ultimately show ?thesis using i2 tok2 tok3 try2 by simp
qed






section \<open>Properties of writeToNodes\<close>

lemma idData_Cons:
  assumes "idData E k (rcd # rest) = Inr (idl, k')"
  shows "\<exists>r rs. idl = r # rs \<and>
           idData E (if lacks_id rcd then Suc k else k) rest = Inr (rs, k') \<and>
           r = (if lacks_id rcd
                then object_literal (spread_props rcd @ [(''_id'', JStr (uuidv4 E k))])
                else rcd)"
  using assms by (auto simp: lacks_id_def split: sum.splits if_splits prod.splits)

lemma idData_batch:
  assumes "idData E k data = Inr (idl, k')"
  shows "length idl = length data \<and> k' = k + length (filter lacks_id data) \<and>
         (\<forall>j < length data.
            idl ! j =
              (if lacks_id (data ! j)
               then object_literal
                      (spread_props (data ! j) @
                       [(''_id'', JStr (uuidv4 E (k + length (filter lacks_id (take j data)))))])
               else data ! j))"
  using assms
proof (induction "data" arbitrary: k idl)
  case Nil
  then show ?case by simp
next
  case (Cons rcd rest)
  from idData_Cons [OF Cons.prems] obtain r rs where
    idl: "idl = r # rs"
    and rest: "idData E (if lacks_id rcd then Suc k else k) rest = Inr (rs, k')"
    and r: "r = (if lacks_id rcd
                then object_literal (spread_props rcd @ [(''_id'', JStr (uuidv4 E k))])
                else rcd)"
    by blast
  note IH = Cons.IH [OF rest]
  show ?case
  proof (intro conjI allI impI)
    show "length idl = length (rcd # rest)" using IH idl by simp
    show "k' = k + length (filter lacks_id (rcd # rest))" using IH by simp
    fix j assume j: "j < length (rcd # rest)"
    show "idl ! j =
              (if lacks_id ((rcd # rest) ! j)
               then object_literal
                      (spread_props ((rcd # rest) ! j) @
                       [(''_id'', JStr (uuidv4 E (k + length (filter lacks_id (take j (rcd # rest))))))])
               else (rcd # rest) ! j)"
    proof (cases j)
      case 0
      then show ?thesis using idl r by simp
    next
      case (Suc j')
      with j have "j' < length rest" by simp
      with IH have "rs ! j' =
              (if lacks_id (rest ! j')
               then object_literal
                      (spread_props (rest ! j') @
                       [(''_id'', JStr (uuidv4 E ((if lacks_id rcd then Suc k else k)
                                         + length (filter lacks_id (take j' rest)))))])
               else rest ! j')"
        by blast
      then show ?thesis using Suc idl by simp
    qed
  qed
qed


lemma encryptValue_plain: "\<not> is_object v \<Longrightarrow> encryptValue enc v = Inr v"
  by simp

lemma encryptEntries_keys: "encryptEntries enc es = Inr fs \<Longrightarrow> map fst fs = map fst es"
proof (induction es arbitrary: fs)
  case Nil
  then show ?case by simp
next
  case (Cons a es)
  obtain k v where a: "a = (k, v)" by (cases a)
  from Cons.prems a obtain v' fs' where
    "encryptEntries enc es = Inr fs'" "fs = (k, v') # fs'"
    by (auto simp del: encryptValue.simps split: sum.splits)
  with Cons.IH a show ?case by simp
qed

lemma encryptEntries_lookup:
  "encryptEntries enc es = Inr fs \<Longrightarrow> map_of es k = Some v \<Longrightarrow>
   \<exists>v'. map_of fs k = Some v' \<and> encryptValue enc v = Inr v'"
proof (induction es arbitrary: fs)
  case Nil
  then show ?case by simp
next
  case (Cons a es)
  obtain k0 v0 where a: "a = (k0, v0)" by (cases a)
  from Cons.prems(1) a obtain v0' fs' where
    v0': "encryptValue enc v0 = Inr v0'" and fs': "encryptEntries enc es = Inr fs'"
    and fs: "fs = (k0, v0') # fs'"
    by (auto simp del: encryptValue.simps split: sum.splits)
  show ?case
  proof (cases "k = k0")
    case True
    with Cons.prems(2) a have "v = v0" by simp
    with True v0' fs show ?thesis by simp
  next
    case False
    with Cons.prems(2) a have "map_of es k = Some v" by simp
    from Cons.IH [OF fs' this] False fs show ?thesis by simp
  qed
qed

lemma encryptDeep_keeps_plain:
  assumes "encryptDeep enc d = Inr doc" and "\<not> is_object (prop_of d key)"
  shows "prop_of doc key = prop_of d key"
proof (cases d)
  case (JObj es)
  with assms(1) obtain fs where fs: "encryptEntries enc es = Inr fs" and doc: "doc = JObj fs"
    by (auto simp del: encryptValue.simps split: sum.splits)
  show ?thesis
  proof (cases "map_of es key")
    case None
    then have "key \<notin> set (map fst es)" by (simp add: map_of_eq_None_iff)
    with encryptEntries_keys [OF fs] have "key \<notin> set (map fst fs)" by simp
    then have "map_of fs key = None" by (simp add: map_of_eq_None_iff)
    with None JObj doc show ?thesis by simp
  next
    case (Some v)
    from encryptEntries_lookup [OF fs Some] obtain v' where
      v': "map_of fs key = Some v'" "encryptValue enc v = Inr v'" by blast
    from assms(2) JObj Some have "\<not> is_object v" by simp
    with v' have "v' = v" by simp
    with v' Some JObj doc show ?thesis by simp
  qed
qed (use assms in \<open>auto split: sum.splits\<close>)

lemma nodeShare_member:
  "shs \<noteq> [] \<Longrightarrow> i < length (nodes V) \<Longrightarrow> nodeShare V i shs \<in> set shs"
proof -
  assume ne: "shs \<noteq> []" and i: "i < length (nodes V)"
  show ?thesis
  proof (cases "length shs = length (nodes V)")
    case True
    with i have "nodeShare V i shs = shs ! i" by (simp add: nodeShare_def js_nth_def)
    with True i show ?thesis by simp
  next
    case False
    with ne have "nodeShare V i shs = shs ! 0" by (simp add: nodeShare_def js_nth_def)
    with ne show ?thesis by simp
  qed
qed

text \<open>
  C5, as amended. In a batch that writeToNodes accepts, a record whose \<^verbatim>\<open>_id\<close> is
  truthy is passed on as it is, and a record whose \<^verbatim>\<open>_id\<close> is missing or falsy is
  replaced by a copy whose \<^verbatim>\<open>_id\<close> is the next identifier of the generator: as many
  identifiers are taken as there are such records, one for each. That is done before
  allotment; the walk keeps the identifier, and if the variants that the primitive returns
  all hold the unmarked \<^verbatim>\<open>_id\<close> of the walked record, then the variant of every node
  holds the generated identifier.
\<close>

theorem generated_id:
  assumes "idData E k data = Inr (idl, k')" and "j < length data"
  shows "length idl = length data \<and> k' = k + length (filter lacks_id data) \<and>
         (\<not> lacks_id (data ! j) \<longrightarrow> idl ! j = data ! j) \<and>
         (lacks_id (data ! j) \<longrightarrow>
            idl ! j = object_literal
                        (spread_props (data ! j) @
                         [(''_id'', JStr (uuidv4 E (k + length (filter lacks_id (take j data)))))]) \<and>
            prop_of (idl ! j) ''_id'' =
              JStr (uuidv4 E (k + length (filter lacks_id (take j data)))) \<and>
            (\<forall>L w doc shs i.
               encryptDeep (nilql_encrypt L (secretKey w)) (idl ! j) = Inr doc \<and>
               prepareAndAllot L w (idl ! j) = Inr shs \<and> shs \<noteq> [] \<and>
               list_all (\<lambda>s. prop_of s ''_id'' = prop_of doc ''_id'') shs \<and>
               i < length (nodes V)
               \<longrightarrow> prop_of doc ''_id'' = JStr (uuidv4 E (k + length (filter lacks_id (take j data)))) \<and>
                   prop_of (nodeShare V i shs) ''_id'' =
                     JStr (uuidv4 E (k + length (filter lacks_id (take j data)))))) \<and>
         (\<forall>L results k''.
            writeToNodes E L V k data = Inr (results, k'') \<longrightarrow>
              k'' = k' \<and> (\<exists>td. allotData L V idl = Inr td))"
proof -
  let ?u = "uuidv4 E (k + length (filter lacks_id (take j data)))"
  note B = idData_batch [OF assms(1)]
  from B assms(2) have nth: "idl ! j =
      (if lacks_id (data ! j)
       then object_literal (spread_props (data ! j) @ [(''_id'', JStr ?u)])
       else data ! j)"
    by blast
  have gen: "prop_of (idl ! j) ''_id'' = JStr ?u" if "lacks_id (data ! j)"
    using that nth by (simp add: prop_of_object_literal_last)
  have var: "prop_of doc ''_id'' = JStr ?u \<and> prop_of (nodeShare V i shs) ''_id'' = JStr ?u"
    if l: "lacks_id (data ! j)"
      and h: "encryptDeep (nilql_encrypt L (secretKey w)) (idl ! j) = Inr doc \<and>
               prepareAndAllot L w (idl ! j) = Inr shs \<and> shs \<noteq> [] \<and>
               list_all (\<lambda>s. prop_of s ''_id'' = prop_of doc ''_id'') shs \<and>
               i < length (nodes V)"
    for L w doc shs i
  proof -
    from gen [OF l] have "\<not> is_object (prop_of (idl ! j) ''_id'')" by simp
    with h have "prop_of doc ''_id'' = prop_of (idl ! j) ''_id''"
      by (intro encryptDeep_keeps_plain) auto
    with gen [OF l] have d: "prop_of doc ''_id'' = JStr ?u" by simp
    from h have "nodeShare V i shs \<in> set shs" by (intro nodeShare_member) auto
    with h have "prop_of (nodeShare V i shs) ''_id'' = prop_of doc ''_id''"
      by (auto simp: list_all_iff)
    with d show ?thesis by simp
  qed
  have wr: "k'' = k' \<and> (\<exists>td. allotData L V idl = Inr td)"
    if "writeToNodes E L V k data = Inr (results, k'')" for L results k''
    using that assms(1) by (auto simp: writeToNodes_def split: sum.splits)
  show ?thesis
  proof (intro conjI impI allI)
    show "length idl = length data" using B by blast
    show "k' = k + length (filter lacks_id data)" using B by blast
    show "idl ! j = data ! j" if "\<not> lacks_id (data ! j)" using that nth by simp
    show "idl ! j = object_literal (spread_props (data ! j) @ [(''_id'', JStr ?u)])"
      if "lacks_id (data ! j)" using that nth by simp
    show "prop_of (idl ! j) ''_id'' = JStr ?u" if "lacks_id (data ! j)"
      using that by (rule gen)
    show "prop_of doc ''_id'' = JStr ?u"
      if "lacks_id (data ! j)"
        and "encryptDeep (nilql_encrypt L (secretKey w)) (idl ! j) = Inr doc \<and>
               prepareAndAllot L w (idl ! j) = Inr shs \<and> shs \<noteq> [] \<and>
               list_all (\<lambda>s. prop_of s ''_id'' = prop_of doc ''_id'') shs \<and>
               i < length (nodes V)" for L w doc shs i
      using var [OF that] by blast
    show "prop_of (nodeShare V i shs) ''_id'' = JStr ?u"
      if "lacks_id (data ! j)"
        and "encryptDeep (nilql_encrypt L (secretKey w)) (idl ! j) = Inr doc \<and>
               prepareAndAllot L w (idl ! j) = Inr shs \<and> shs \<noteq> [] \<and>
               list_all (\<lambda>s. prop_of s ''_id'' = prop_of doc ''_id'') shs \<and>
               i < length (nodes V)" for L w doc shs i
      using var [OF that] by blast
    show "k'' = k'" if "writeToNodes E L V k data = Inr (results, k'')" for L results k''
      using wr [OF that] by blast
    show "\<exists>td. allotData L V idl = Inr td"
      if "writeToNodes E L V k data = Inr (results, k'')" for L results k''
      using wr [OF that] by blast
  qed
qed

theorem generated_id_witness:
  "idData sample_env 0 [JObj [(''n'', JObj [(''%allot'', JNum 12)])]]
     = Inr ([JObj [(''n'', JObj [(''%allot'', JNum 12)]),
                   (''_id'', JStr ''00000000-0000-4000-8000-000000000000'')]], 1) \<and>
   (0::nat) < length [JObj [(''n'', JObj [(''%allot'', JNum 12)])]] \<and>
   lacks_id ([JObj [(''n'', JObj [(''%allot'', JNum 12)])]] ! 0) \<and>
   prepareAndAllot sample_nilql (new_NilQLWrapper JNull None (JNum 7) JNull KeyType_SECRET)
       (JObj [(''n'', JObj [(''%allot'', JNum 12)]),
              (''_id'', JStr ''00000000-0000-4000-8000-000000000000'')])
     = Inr [JObj [(''n'', JObj [(''%share'', JNum 5)]),
                  (''_id'', JStr ''00000000-0000-4000-8000-000000000000'')],
            JObj [(''n'', JObj [(''%share'', JNum 7)]),
                  (''_id'', JStr ''00000000-0000-4000-8000-000000000000'')]] \<and>
   prop_of (nodeShare (sample_vault [node_a, node_e]) 1
              [JObj [(''n'', JObj [(''%share'', JNum 5)]),
                     (''_id'', JStr ''00000000-0000-4000-8000-000000000000'')],
               JObj [(''n'', JObj [(''%share'', JNum 7)]),
                     (''_id'', JStr ''00000000-0000-4000-8000-000000000000'')]]) ''_id''
     = JStr ''00000000-0000-4000-8000-000000000000''"
proof -
  let ?r = "JObj [(''n'', JObj [(''%allot'', JNum 12)])]"
  let ?r' = "JObj [(''n'', JObj [(''%allot'', JNum 12)]),
                   (''_id'', JStr ''00000000-0000-4000-8000-000000000000'')]"
  let ?doc = "JObj [(''n'', JObj [(''%allot'', JArr [JNum 5, JNum 7])]),
                    (''_id'', JStr ''00000000-0000-4000-8000-000000000000'')]"
  let ?shs = "[JObj [(''n'', JObj [(''%share'', JNum 5)]),
                     (''_id'', JStr ''00000000-0000-4000-8000-000000000000'')],
               JObj [(''n'', JObj [(''%share'', JNum 7)]),
                     (''_id'', JStr ''00000000-0000-4000-8000-000000000000'')]]"
  let ?w = "new_NilQLWrapper JNull None (JNum 7) JNull KeyType_SECRET"
  have h1: "idData sample_env 0 [?r] = Inr ([?r'], 1)" by code_simp
  have h2: "(0::nat) < length [?r]" by simp
  have l: "lacks_id ([?r] ! 0)" by code_simp
  have u: "uuidv4 sample_env (0 + length (filter lacks_id (take 0 [?r])))
             = ''00000000-0000-4000-8000-000000000000''" by code_simp
  have e: "encryptDeep (nilql_encrypt sample_nilql (secretKey ?w)) ([?r'] ! 0) = Inr ?doc"
    by code_simp
  have p: "prepareAndAllot sample_nilql ?w ([?r'] ! 0) = Inr ?shs" by code_simp
  have p': "prepareAndAllot sample_nilql ?w ?r' = Inr ?shs" by code_simp
  have a: "list_all (\<lambda>s. prop_of s ''_id'' = prop_of ?doc ''_id'') ?shs" by simp
  have i: "(1::nat) < length (nodes (sample_vault [node_a, node_e]))"
    by (simp add: sample_vault_def)
  from generated_id [OF h1 h2, of "sample_vault [node_a, node_e]"] l
  have "\<forall>L w doc shs i.
               encryptDeep (nilql_encrypt L (secretKey w)) ([?r'] ! 0) = Inr doc \<and>
               prepareAndAllot L w ([?r'] ! 0) = Inr shs \<and> shs \<noteq> [] \<and>
               list_all (\<lambda>s. prop_of s ''_id'' = prop_of doc ''_id'') shs \<and>
               i < length (nodes (sample_vault [node_a, node_e]))
               \<longrightarrow> prop_of doc ''_id'' = JStr (uuidv4 sample_env (0 + length (filter lacks_id (take 0 [?r])))) \<and>
                   prop_of (nodeShare (sample_vault [node_a, node_e]) i shs) ''_id'' =
                     JStr (uuidv4 sample_env (0 + length (filter lacks_id (take 0 [?r]))))"
    by blast
  with e p a i have "prop_of (nodeShare (sample_vault [node_a, node_e]) 1 ?shs) ''_id''
      = JStr (uuidv4 sample_env (0 + length (filter lacks_id (take 0 [?r]))))"
    by blast
  with u have "prop_of (nodeShare (sample_vault [node_a, node_e]) 1 ?shs) ''_id''
      = JStr ''00000000-0000-4000-8000-000000000000''" by simp
  with h1 h2 l p' show ?thesis by blast
qed

text \<open>
  C5 as stated fails: a record that has the \<^verbatim>\<open>_id\<close> 0 does not keep it.
\<close>

theorem falsy_id_replaced_counterexample:
  "idData sample_env 0 [JObj [(''_id'', JNum 0), (''message'', JStr ''hi'')]]
     = Inr ([JObj [(''_id'', JStr ''00000000-0000-4000-8000-000000000000''),
                   (''message'', JStr ''hi'')]], 1)"
  by code_simp

section \<open>Properties of readFromNodes\<close>

lemma strict_eq_refl_eq: "strict_eq x x \<Longrightarrow> strict_eq a x = (a = x)"
  by (cases x; cases a) auto

lemma record_ok_get_prop: "record_ok r \<Longrightarrow> get_prop r ''_id'' = Inr (prop_of r ''_id'')"
  by (cases r) (simp_all add: record_ok_def)

lemma first_occurrences_snoc:
  "first_occurrences (xs @ [x]) =
     (if x \<in> set xs then first_occurrences xs else first_occurrences xs @ [x])"
  by (simp add: first_occurrences_def)

lemma first_occurrences_set: "set (first_occurrences xs) = set xs"
  by (simp add: first_occurrences_def)

lemma first_occurrences_distinct: "distinct (first_occurrences xs)"
  by (simp add: first_occurrences_def)

lemma add_record_groups:
  assumes x: "strict_eq x x" and xr: "prop_of r ''_id'' = x"
    and sub: "set is \<subseteq> (\<lambda>r. prop_of r ''_id'') ` set pre" and d: "distinct is"
  shows "add_record x r (map (group_of pre) is) =
           (if x \<in> set is then map (group_of (pre @ [r])) is
            else map (group_of pre) is @ [\<lparr> shares = [r], recordIndex = x \<rparr>])"
  using sub d
proof (induction "is")
  case Nil
  then show ?case by simp
next
  case (Cons i "is")
  from Cons.prems have i: "i \<in> (\<lambda>r. prop_of r ''_id'') ` set pre"
    and sub': "set is \<subseteq> (\<lambda>r. prop_of r ''_id'') ` set pre"
    and d': "distinct is" and ni: "i \<notin> set is"
    by auto
  have ex: "list_ex (\<lambda>share. strict_eq (prop_of share ''_id'') x) (shares (group_of pre i)) = (i = x)"
    using i by (auto simp: group_of_def list_ex_iff strict_eq_refl_eq [OF x])
  show ?case
  proof (cases "i = x")
    case True
    with ni have "x \<notin> set is" by simp
    then have same: "map (group_of (pre @ [r])) is = map (group_of pre) is"
      using xr by (auto simp: group_of_def)
    have "(group_of pre i)\<lparr> shares := shares (group_of pre i) @ [r] \<rparr> = group_of (pre @ [r]) i"
      using True xr by (simp add: group_of_def)
    with ex True same show ?thesis by simp
  next
    case False
    have "group_of (pre @ [r]) i = group_of pre i"
      using False xr by (auto simp: group_of_def)
    with ex False Cons.IH [OF sub' d'] show ?thesis by simp
  qed
qed

lemma add_record_group_by_id:
  assumes "record_ok r"
  shows "add_record (prop_of r ''_id'') r (group_by_id pre) = group_by_id (pre @ [r])"
proof -
  let ?x = "prop_of r ''_id''"
  let ?ids = "first_occurrences (map (\<lambda>r. prop_of r ''_id'') pre)"
  from assms have x: "strict_eq ?x ?x" by (simp add: record_ok_def)
  have sub: "set ?ids \<subseteq> (\<lambda>r. prop_of r ''_id'') ` set pre"
    by (simp add: first_occurrences_set)
  note A = add_record_groups [OF x refl sub first_occurrences_distinct]
  show ?thesis
  proof (cases "?x \<in> set (map (\<lambda>r. prop_of r ''_id'') pre)")
    case True
    then have "?x \<in> set ?ids" by (simp add: first_occurrences_set)
    with A True show ?thesis
      by (simp add: group_by_id_def first_occurrences_snoc)
  next
    case False
    then have nx: "?x \<notin> set ?ids" by (simp add: first_occurrences_set)
    from False have f: "filter (\<lambda>r'. prop_of r' ''_id'' = ?x) pre = []"
      by (force simp: filter_empty_conv image_iff)
    have same: "map (group_of (pre @ [r])) ?ids = map (group_of pre) ?ids"
      using nx by (auto simp: group_of_def)
    have new: "group_of (pre @ [r]) ?x = \<lparr> shares = [r], recordIndex = ?x \<rparr>"
      using f by (simp add: group_of_def)
    from A nx False same new show ?thesis
      by (simp add: group_by_id_def first_occurrences_snoc)
  qed
qed

lemma group_records_group_by_id:
  "list_all record_ok rs \<Longrightarrow>
   group_records (group_by_id pre) rs = Inr (group_by_id (pre @ rs))"
proof (induction rs arbitrary: pre)
  case Nil
  then show ?case by simp
next
  case (Cons r rs)
  then have r: "record_ok r" and rs: "list_all record_ok rs" by simp_all
  from Cons.IH [OF rs, of "pre @ [r]"] show ?case
    by (simp add: record_ok_get_prop [OF r] add_record_group_by_id [OF r])
qed

lemma recordGroups_group_by_id:
  "list_all well_formed results \<Longrightarrow>
   recordGroups (group_by_id pre) results
     = Inr (group_by_id (pre @ concat (map data_records results)))"
proof (induction results arbitrary: pre)
  case Nil
  then show ?case by simp
next
  case (Cons nodeResult rest)
  then have wf: "well_formed nodeResult" and rest: "list_all well_formed rest" by simp_all
  show ?case
  proof (cases "truthy (prop_of nodeResult ''data'')")
    case False
    with Cons.IH [OF rest, of pre] show ?thesis by (simp add: data_records_def)
  next
    case True
    with wf obtain rs where it: "iterate (prop_of nodeResult ''data'') = Inr rs"
      and ok: "list_all record_ok rs"
      by (auto simp: well_formed_def split: sum.splits)
    from True it have dr: "data_records nodeResult = rs" by (simp add: data_records_def)
    from Cons.IH [OF rest, of "pre @ rs"] True it group_records_group_by_id [OF ok, of pre] dr
    show ?thesis by simp
  qed
qed

lemma group_by_id_Nil: "group_by_id [] = []"
  by (simp add: group_by_id_def first_occurrences_def)

lemma recombine_Inr:
  "recombine L V gs = Inr out \<Longrightarrow>
   length out = length gs \<and>
   (\<forall>j < length gs. \<exists>w. nilqlWrapper V = Some w \<and> unify L w (shares (gs ! j)) = Inr (out ! j))"
proof (induction gs arbitrary: out)
  case Nil
  then show ?case by simp
next
  case (Cons g gs)
  from Cons.prems obtain w u rest where w: "nilqlWrapper V = Some w"
    and u: "unify L w (shares g) = Inr u" and rest: "recombine L V gs = Inr rest"
    and out: "out = u # rest"
    by (auto split: option.splits sum.splits)
  from Cons.IH [OF rest] w u out show ?case
    by (auto simp: nth_Cons split: nat.splits)
qed


lemma failed_read_leg:
  "generateNodeToken E (did n) = Inl e \<Longrightarrow>
   data_records (outcome (readDataFromNode E V f n)) = []"
  "generateNodeToken E (did n) = Inr jwt \<Longrightarrow>
   makeRequest_try E (url n) ''data/read'' jwt
     (JObj [(''schema'', schemaId V), (''filter'', f)]) ''POST'' = Inl err \<Longrightarrow>
   data_records (outcome (readDataFromNode E V f n)) = []"
  by (auto simp: readDataFromNode_def makeRequest_def makeRequest_catch_def Let_def
      data_records_def object_literal_def split: sum.splits option.splits)

text \<open>
  C4. When every outcome of a read is well formed, readFromNodes flattens the record
  lists of the outcomes into one stream, groups the stream by \<^verbatim>\<open>_id\<close> (the scan of
  the code yields exactly the groups of \<open>group_by_id\<close>), calls unify once for each
  group on all its shares, and returns one unified record for each group. A node whose
  token cannot be generated or whose request fails contributes no record.
\<close>

theorem read_reassembly:
  assumes "list_all well_formed (read_results E V filt)" and "i < length (nodes V)"
  shows
    "readFromNodes E L V filt =
       recombine L V (group_by_id (concat (map data_records (read_results E V filt)))) \<and>
     (\<forall>out. readFromNodes E L V filt = Inr out \<longrightarrow>
        length out = length (group_by_id (concat (map data_records (read_results E V filt)))) \<and>
        (\<forall>j < length out. \<exists>w. nilqlWrapper V = Some w \<and>
           unify L w (shares (group_by_id (concat (map data_records (read_results E V filt))) ! j))
             = Inr (out ! j))) \<and>
     (\<forall>e. generateNodeToken E (did (nodes V ! i)) = Inl e \<longrightarrow>
        data_records (read_results E V filt ! i) = []) \<and>
     (\<forall>jwt err.
        generateNodeToken E (did (nodes V ! i)) = Inr jwt \<and>
        makeRequest_try E (url (nodes V ! i)) ''data/read'' jwt
          (JObj [(''schema'', schemaId V), (''filter'', default_filter filt)]) ''POST'' = Inl err
        \<longrightarrow> data_records (read_results E V filt ! i) = [])"
proof -
  let ?gs = "group_by_id (concat (map data_records (read_results E V filt)))"
  from recordGroups_group_by_id [OF assms(1), of "[]"]
  have "recordGroups [] (read_results E V filt) = Inr ?gs"
    by (simp add: group_by_id_Nil)
  then have eq: "readFromNodes E L V filt = recombine L V ?gs"
    by (simp add: readFromNodes_def)
  have nth: "read_results E V filt ! i
               = outcome (readDataFromNode E V (default_filter filt) (nodes V ! i))"
    using assms(2) by (simp add: read_results_def)
  show ?thesis
  proof (intro conjI allI impI)
    show "readFromNodes E L V filt = recombine L V ?gs" by (rule eq)
  next
    fix out assume "readFromNodes E L V filt = Inr out"
    with eq have r: "recombine L V ?gs = Inr out" by simp
    from recombine_Inr [OF r] show "length out = length ?gs" by blast
    fix j assume "j < length out"
    with recombine_Inr [OF r]
    show "\<exists>w. nilqlWrapper V = Some w \<and> unify L w (shares (?gs ! j)) = Inr (out ! j)"
      by simp
  next
    fix e assume "generateNodeToken E (did (nodes V ! i)) = Inl e"
    then show "data_records (read_results E V filt ! i) = []"
      unfolding nth by (rule failed_read_leg(1))
  next
    fix jwt err
    assume "generateNodeToken E (did (nodes V ! i)) = Inr jwt \<and>
        makeRequest_try E (url (nodes V ! i)) ''data/read'' jwt
          (JObj [(''schema'', schemaId V), (''filter'', default_filter filt)]) ''POST'' = Inl err"
    then show "data_records (read_results E V filt ! i) = []"
      unfolding nth using failed_read_leg(2) by blast
  qed
qed

theorem read_reassembly_witness:
  "list_all well_formed (read_results sample_env (sample_vault [node_a, node_b, node_e]) JUndefined) \<and>
   (1::nat) < length (nodes (sample_vault [node_a, node_b, node_e])) \<and>
   readFromNodes sample_env sample_nilql (sample_vault [node_a, node_b, node_e]) JUndefined
     = Inr [JObj [(''_id'', JStr ''r1''), (''n'', JNum 12)]]"
proof -
  have wf: "list_all well_formed
              (read_results sample_env (sample_vault [node_a, node_b, node_e]) JUndefined)"
    by code_simp
  have i: "(1::nat) < length (nodes (sample_vault [node_a, node_b, node_e]))"
    by code_simp
  have "recombine sample_nilql (sample_vault [node_a, node_b, node_e])
          (group_by_id (concat (map data_records
             (read_results sample_env (sample_vault [node_a, node_b, node_e]) JUndefined))))
        = Inr [JObj [(''_id'', JStr ''r1''), (''n'', JNum 12)]]"
    by code_simp
  with read_reassembly [OF wf i, of sample_nilql] wf i show ?thesis by simp
qed


















section \<open>writeToNodes leaves its input alone\<close>

lemma extends_iff: "extends h h' \<longleftrightarrow> (\<exists>t. h' = h @ t)"
proof
  assume "extends h h'"
  then have "h' = h @ drop (length h) h'"
    by (metis append_take_drop_id extends_def)
  then show "\<exists>t. h' = h @ t" ..
next
  assume "\<exists>t. h' = h @ t"
  then show "extends h h'" by (auto simp: extends_def)
qed

lemma extends_refl: "extends h h"
  by (simp add: extends_def)

lemma extends_append: "extends h (h @ t)"
  by (simp add: extends_def)

lemma extends_trans: "extends h h' \<Longrightarrow> extends h' h'' \<Longrightarrow> extends h h''"
  unfolding extends_iff by auto

lemma extends_append2: "extends h h' \<Longrightarrow> extends h (h' @ t)"
  unfolding extends_iff by auto

lemma extends_assign: "extends h h' \<Longrightarrow> length h \<le> e \<Longrightarrow> extends h (assign e k v h')"
  unfolding extends_iff by (auto simp: assign_def list_update_append)

lemma extends_length: "extends h h' \<Longrightarrow> length h \<le> length h'"
  by (simp add: extends_def)

lemma store_extends:
  "store x h = (v, h') \<Longrightarrow> extends h h'"
  "store_elems xs h = (vs, h') \<Longrightarrow> extends h h'"
  "store_entries es h = (fs, h') \<Longrightarrow> extends h h'"
proof (induction x h and xs h and es h arbitrary: v h' and vs h' and fs h'
    rule: store_store_elems_store_entries.induct)
  case (7 xs h)
  then show ?case by (auto split: prod.splits intro: extends_append2)
next
  case (8 es h)
  then show ?case by (auto split: prod.splits intro: extends_append2)
next
  case (10 x xs h)
  then show ?case by (auto split: prod.splits intro: extends_trans)
next
  case (12 k x es h)
  then show ?case by (auto split: prod.splits intro: extends_trans)
qed (auto intro: extends_refl extends_append)


lemma encryptEntriesH_marked:
  "v = HRef b \<Longrightarrow> has_propH h ''%allot'' v \<Longrightarrow>
   encryptEntriesH n enc e ((key, v) # rest) h =
     (case enc h (prop_ofH h v ''%allot'') of
        Inl er \<Rightarrow> (Some (Inl er), h)
      | Inr c \<Rightarrow>
          (case store c h of
             (cv, h') \<Rightarrow>
               encryptEntriesH n enc e rest
                 (assign e key (HRef (length h')) (h' @ [HObj [(''%allot'', cv)]]))))"
  by (simp del: has_propH.simps prop_ofH.simps)

lemma encryptEntriesH_unmarked:
  "v = HRef b \<Longrightarrow> \<not> has_propH h ''%allot'' v \<Longrightarrow>
   encryptEntriesH n enc e ((key, v) # rest) h =
     (case encryptDeepH n enc v h of
        (None, h') \<Rightarrow> (None, h')
      | (Some (Inl er), h') \<Rightarrow> (Some (Inl er), h')
      | (Some (Inr v'), h') \<Rightarrow> encryptEntriesH n enc e rest (assign e key v' h'))"
  by (simp del: has_propH.simps prop_ofH.simps)

lemma encryptDeepH_extends:
  "encryptDeepH n enc obj h = (r, h') \<Longrightarrow> extends h h'"
  "encryptEntriesH n enc e es h = (r', h') \<Longrightarrow> extends h0 h \<Longrightarrow> length h0 \<le> e
     \<Longrightarrow> extends h0 h'"
proof (induction n enc obj h and n enc e es h arbitrary: r h' and r' h' h0
    rule: encryptDeepH_encryptEntriesH.induct)
  case (1 enc obj h)
  then show ?case by (simp add: extends_refl)
next
  case (2 n enc obj h)
  show ?case
  proof (cases obj)
    case (HRef a)
    obtain q h1 where run: "encryptEntriesH n enc (length h) (spread_propsH h obj)
                              (h @ [empty_like h obj]) = (q, h1)"
      by (cases "encryptEntriesH n enc (length h) (spread_propsH h obj) (h @ [empty_like h obj])")
    from "2.IH" [OF HRef run extends_append] have "extends h h1" by simp
    moreover from "2.prems" HRef run have "h' = h1"
      by (auto split: option.splits sum.splits)
    ultimately show ?thesis by simp
  qed (use "2.prems" in \<open>auto simp: extends_refl\<close>)
next
  case (3 n enc encrypted h)
  then show ?case by simp
next
  case (4 n enc encrypted key v rest h)
  show ?case
  proof (cases v)
    case (HRef b)
    show ?thesis
    proof (cases "has_propH h ''%allot'' v")
      case True
      note eq = encryptEntriesH_marked [OF HRef True, of n enc encrypted key rest]
      show ?thesis
      proof (cases "enc h (prop_ofH h v ''%allot'')")
        case (Inl err)
        with "4.prems" eq show ?thesis by simp
      next
        case (Inr c)
        obtain cv h1 where st: "store c h = (cv, h1)" by (cases "store c h")
        let ?h2 = "assign encrypted key (HRef (length h1)) (h1 @ [HObj [(''%allot'', cv)]])"
        from store_extends(1) [OF st] "4.prems"(2) have "extends h0 h1"
          by (blast intro: extends_trans)
        then have e2: "extends h0 ?h2"
          using "4.prems"(3) by (intro extends_assign extends_append2)
        from "4.prems"(1) eq Inr st
        have run: "encryptEntriesH n enc encrypted rest ?h2 = (r', h')" by simp
        from "4.IH"(6) [OF HRef True Inr st [symmetric] run e2 "4.prems"(3)]
        show ?thesis .
      qed
    next
      case False
      note eq = encryptEntriesH_unmarked [OF HRef False, of n enc encrypted key rest]
      obtain q h1 where run: "encryptDeepH n enc v h = (q, h1)"
        by (cases "encryptDeepH n enc v h")
      from "4.IH"(7) [OF HRef False run] have "extends h h1" .
      with "4.prems"(2) have e1: "extends h0 h1" by (blast intro: extends_trans)
      show ?thesis
      proof (cases q)
        case None
        with "4.prems"(1) eq run e1 show ?thesis by simp
      next
        case (Some res)
        show ?thesis
        proof (cases res)
          case (Inl err)
          with "4.prems"(1) eq run Some e1 show ?thesis by simp
        next
          case (Inr v')
          from e1 "4.prems"(3) have e2: "extends h0 (assign encrypted key v' h1)"
            by (rule extends_assign)
          from "4.prems"(1) eq run Some Inr
          have run2: "encryptEntriesH n enc encrypted rest (assign encrypted key v' h1) = (r', h')"
            by simp
          from "4.IH"(8) [OF HRef False run [symmetric] Some Inr run2 e2 "4.prems"(3)]
          show ?thesis .
        qed
      qed
    qed
  next
    case HUndefined
    from "4.prems" have "extends h0 (assign encrypted key v h)" by (intro extends_assign)
    with "4.IH"(1) [OF HUndefined] "4.prems" HUndefined show ?thesis by simp
  next
    case HNull
    from "4.prems" have "extends h0 (assign encrypted key v h)" by (intro extends_assign)
    with "4.IH"(2) [OF HNull] "4.prems" HNull show ?thesis by simp
  next
    case (HBool x)
    from "4.prems" have "extends h0 (assign encrypted key v h)" by (intro extends_assign)
    with "4.IH"(3) [OF HBool] "4.prems" HBool show ?thesis by simp
  next
    case (HNum x)
    from "4.prems" have "extends h0 (assign encrypted key v h)" by (intro extends_assign)
    with "4.IH"(4) [OF HNum] "4.prems" HNum show ?thesis by simp
  next
    case (HStr x)
    from "4.prems" have "extends h0 (assign encrypted key v h)" by (intro extends_assign)
    with "4.IH"(5) [OF HStr] "4.prems" HStr show ?thesis by simp
  qed
qed


lemma prepareAndAllotH_extends:
  "prepareAndAllotH fuel P w item h = (r, h') \<Longrightarrow> extends h h'"
  by (auto simp: prepareAndAllotH_def extends_refl split: if_splits prod.splits option.splits
      sum.splits dest: encryptDeepH_extends(1))

lemma allotDataH_extends:
  "allotDataH fuel P V items h = (r, h') \<Longrightarrow> extends h h'"
proof (induction items arbitrary: h r h')
  case Nil
  then show ?case by (simp add: extends_refl)
next
  case (Cons item rest)
  show ?case
  proof (cases "nilqlWrapper V")
    case None
    with Cons.prems show ?thesis by (simp add: extends_refl)
  next
    case (Some w)
    obtain q h1 where p: "prepareAndAllotH fuel P w item h = (q, h1)"
      by (cases "prepareAndAllotH fuel P w item h")
    note e1 = prepareAndAllotH_extends [OF p]
    obtain q2 h2 where a: "allotDataH fuel P V rest h1 = (q2, h2)"
      by (cases "allotDataH fuel P V rest h1")
    from Cons.IH [OF a] e1 have e2: "extends h h2" by (blast intro: extends_trans)
    from Cons.prems Some p a have "h' = h1 \<or> h' = h2"
      by (auto split: option.splits sum.splits)
    with e1 e2 show ?thesis by blast
  qed
qed

lemma idDataH_extends:
  "idDataH E k recs h = (r, h') \<Longrightarrow> extends h h'"
proof (induction recs arbitrary: k h r h')
  case Nil
  then show ?case by (simp add: extends_refl)
next
  case (Cons rcd rest)
  show ?case
  proof (cases "get_propH h rcd ''_id''")
    case (Inl e)
    with Cons.prems show ?thesis by (simp add: extends_refl)
  next
    case (Inr i)
    show ?thesis
    proof (cases "truthyH i")
      case True
      obtain q h1 where run: "idDataH E k rest h = (q, h1)" by (cases "idDataH E k rest h")
      from Cons.prems Inr True run have "h' = h1" by (auto split: sum.splits prod.splits)
      with Cons.IH [OF run] show ?thesis by simp
    next
      case False
      let ?h = "h @ [HObj (foldl (\<lambda>acc (key, v). set_prop key v acc) []
                                  (spread_propsH h rcd @ [(''_id'', HStr (uuidv4 E k))]))]"
      obtain q h1 where run: "idDataH E (Suc k) rest ?h = (q, h1)"
        by (cases "idDataH E (Suc k) rest ?h")
      from Cons.prems Inr False run have "h' = h1" by (auto split: sum.splits prod.splits)
      with Cons.IH [OF run] show ?thesis by (blast intro: extends_trans extends_append)
    qed
  qed
qed

lemma prop_ofH_extends:
  "valid h v \<Longrightarrow> prop_ofH (h @ t) v k = prop_ofH h v k"
  by (cases v) (auto simp: nth_append)

lemma idDataH_refs:
  "idDataH E k recs h = (Inr (idl, k'), h') \<Longrightarrow> list_all (valid h) recs \<Longrightarrow>
   length idl = length recs \<and>
   (\<forall>j < length recs.
      if truthyH (prop_ofH h (recs ! j) ''_id'') then idl ! j = recs ! j
      else (\<exists>a. idl ! j = HRef a \<and> length h \<le> a \<and> a < length h'))"
proof (induction recs arbitrary: k h idl k' h')
  case Nil
  then show ?case by simp
next
  case (Cons rcd rest)
  from Cons.prems(1) obtain i where i: "get_propH h rcd ''_id'' = Inr i"
    by (auto split: sum.splits)
  then have pi: "prop_ofH h rcd ''_id'' = i" by (cases rcd) auto
  from Cons.prems(2) have vrest: "list_all (valid h) rest" by simp
  show ?case
  proof (cases "truthyH i")
    case True
    from Cons.prems(1) i True obtain rs where run: "idDataH E k rest h = (Inr (rs, k'), h')"
      and idl: "idl = rcd # rs"
      by (auto split: sum.splits prod.splits)
    from Cons.IH [OF run vrest] idl pi True show ?thesis
      by (auto simp: nth_Cons split: nat.splits)
  next
    case False
    let ?h = "h @ [HObj (foldl (\<lambda>acc (key, v). set_prop key v acc) []
                                  (spread_propsH h rcd @ [(''_id'', HStr (uuidv4 E k))]))]"
    from Cons.prems(1) i False obtain rs where
      run: "idDataH E (Suc k) rest ?h = (Inr (rs, k'), h')"
      and idl: "idl = HRef (length h) # rs"
      by (auto split: sum.splits prod.splits)
    from idDataH_extends [OF run] have len: "length h < length h'"
      using extends_length by fastforce
    from vrest have v': "list_all (valid ?h) rest"
      by (induction rest) (auto simp: less_Suc_eq elim: valid.elims)
    have same: "prop_ofH ?h (rest ! j) ''_id'' = prop_ofH h (rest ! j) ''_id''"
      if "j < length rest" for j
      using that vrest by (intro prop_ofH_extends) (simp add: list_all_length)
    from Cons.IH [OF run v'] have IH:
      "length rs = length rest \<and>
       (\<forall>j < length rest.
          if truthyH (prop_ofH ?h (rest ! j) ''_id'') then rs ! j = rest ! j
          else (\<exists>a. rs ! j = HRef a \<and> length ?h \<le> a \<and> a < length h'))" .
    show ?thesis
    proof (intro conjI allI impI)
      show "length idl = length (rcd # rest)" using IH idl by simp
      fix j assume j: "j < length (rcd # rest)"
      show "if truthyH (prop_ofH h ((rcd # rest) ! j) ''_id'') then idl ! j = (rcd # rest) ! j
            else (\<exists>a. idl ! j = HRef a \<and> length h \<le> a \<and> a < length h')"
      proof (cases j)
        case 0
        with idl pi False len show ?thesis by simp
      next
        case (Suc j')
        with j have j': "j' < length rest" by simp
        with IH have "if truthyH (prop_ofH ?h (rest ! j') ''_id'') then rs ! j' = rest ! j'
          else (\<exists>a. rs ! j' = HRef a \<and> length ?h \<le> a \<and> a < length h')" by blast
        with same [OF j'] Suc idl show ?thesis by (auto split: if_splits)
      qed
    qed
  qed
qed

lemma writeToNodesH_extends:
  "writeToNodesH fuel E P V k data h = (r, h') \<Longrightarrow> extends h h'"
proof (cases data)
  case (HRef a)
  assume run: "writeToNodesH fuel E P V k data h = (r, h')"
  show ?thesis
  proof (cases "if a < length h then h ! a else HObj []")
    case (HArr recs)
    obtain q h1 where i: "idDataH E k recs h = (q, h1)" by (cases "idDataH E k recs h")
    note e1 = idDataH_extends [OF i]
    show ?thesis
    proof (cases q)
      case (Inl e)
      with run HRef HArr i e1 show ?thesis by (simp add: writeToNodesH_def)
    next
      case (Inr p)
      obtain idl k' where p: "p = (idl, k')" by (cases p)
      obtain q2 h2 where a: "allotDataH fuel P V idl (h1 @ [HArr idl]) = (q2, h2)"
        by (cases "allotDataH fuel P V idl (h1 @ [HArr idl])")
      from allotDataH_extends [OF a] e1 have e2: "extends h h2"
        by (blast intro: extends_trans extends_append2)
      from run HRef HArr i Inr p a have "h' = h2"
        by (auto simp: writeToNodesH_def split: option.splits sum.splits)
      with e2 show ?thesis by simp
    qed
  qed (use run HRef in \<open>auto simp: writeToNodesH_def extends_refl\<close>)
qed (auto simp: writeToNodesH_def extends_refl)

text \<open>
  C10. Whatever writeToNodes does (return, throw, or not return within the bound), every
  object that existed before the call is afterwards exactly as it was: the caller's array,
  every record in it and every object nested in them. A record whose \<^verbatim>\<open>_id\<close> is truthy
  is passed on as the same object, and a record that lacks one is replaced by an object
  allocated by the call.
\<close>

theorem writeToNodes_frame:
  assumes "writeToNodesH fuel E P V k data h = (r, h')"
  shows "length h \<le> length h' \<and> take (length h) h' = h \<and>
         (\<forall>a recs idl k1 h1.
            data = HRef a \<and> a < length h \<and> h ! a = HArr recs \<and> list_all (valid h) recs \<and>
            idDataH E k recs h = (Inr (idl, k1), h1) \<longrightarrow>
              length idl = length recs \<and>
              (\<forall>j < length recs.
                 if truthyH (prop_ofH h (recs ! j) ''_id'') then idl ! j = recs ! j
                 else (\<exists>b. idl ! j = HRef b \<and> length h \<le> b \<and> b < length h1)))"
proof -
  from writeToNodesH_extends [OF assms]
  have "length h \<le> length h'" and "take (length h) h' = h"
    by (simp_all add: extends_def)
  moreover have "length idl = length recs \<and>
              (\<forall>j < length recs.
                 if truthyH (prop_ofH h (recs ! j) ''_id'') then idl ! j = recs ! j
                 else (\<exists>b. idl ! j = HRef b \<and> length h \<le> b \<and> b < length h1))"
    if "data = HRef a \<and> a < length h \<and> h ! a = HArr recs \<and> list_all (valid h) recs \<and>
            idDataH E k recs h = (Inr (idl, k1), h1)" for a recs idl k1 h1
  proof -
    from that have "idDataH E k recs h = (Inr (idl, k1), h1)" and "list_all (valid h) recs"
      by blast+
    then show ?thesis by (rule idDataH_refs)
  qed
  ultimately show ?thesis by blast
qed

theorem writeToNodes_frame_witness:
  "writeToNodesH 5 sample_env sample_nilqlH (sample_vault [node_a, node_e]) 0 (HRef 3) sample_heap
     = (Some (Inr ([JObj [(''status'', JNum 200), (''node'', node_val node_a),
                          (''schemaId'', JStr ''schema-1'')],
                    JObj [(''status'', JNum 200), (''node'', node_val node_e),
                          (''schemaId'', JStr ''schema-1'')]], 1)),
        sample_heap @
        [HObj [(''message'', HStr ''hi''), (''_id'', HStr ''00000000-0000-4000-8000-000000000000'')],
         HArr [HRef 1, HRef 4],
         HObj [(''_id'', HStr ''r1''), (''n'', HRef 8)],
         HArr [HNum 5, HNum 7],
         HObj [(''%allot'', HRef 7)],
         HObj [(''message'', HStr ''hi''), (''_id'', HStr ''00000000-0000-4000-8000-000000000000'')]]) \<and>
   take (length sample_heap)
     (sample_heap @
        [HObj [(''message'', HStr ''hi''), (''_id'', HStr ''00000000-0000-4000-8000-000000000000'')],
         HArr [HRef 1, HRef 4],
         HObj [(''_id'', HStr ''r1''), (''n'', HRef 8)],
         HArr [HNum 5, HNum 7],
         HObj [(''%allot'', HRef 7)],
         HObj [(''message'', HStr ''hi''), (''_id'', HStr ''00000000-0000-4000-8000-000000000000'')]])
     = sample_heap"
proof -
  have run: "writeToNodesH 5 sample_env sample_nilqlH (sample_vault [node_a, node_e]) 0 (HRef 3)
               sample_heap
     = (Some (Inr ([JObj [(''status'', JNum 200), (''node'', node_val node_a),
                          (''schemaId'', JStr ''schema-1'')],
                    JObj [(''status'', JNum 200), (''node'', node_val node_e),
                          (''schemaId'', JStr ''schema-1'')]], 1)),
        sample_heap @
        [HObj [(''message'', HStr ''hi''), (''_id'', HStr ''00000000-0000-4000-8000-000000000000'')],
         HArr [HRef 1, HRef 4],
         HObj [(''_id'', HStr ''r1''), (''n'', HRef 8)],
         HArr [HNum 5, HNum 7],
         HObj [(''%allot'', HRef 7)],
         HObj [(''message'', HStr ''hi''), (''_id'', HStr ''00000000-0000-4000-8000-000000000000'')]])"
    by code_simp
  from writeToNodes_frame [OF run] run show ?thesis by blast
qed

text \<open>On the sample store the walk on the store computes what \<open>encryptDeep\<close> computes.\<close>

lemma encryptDeepH_sample:
  "encryptDeepH 5 (encryptH sample_nilqlH (JNum 7)) (HRef 1) sample_heap
     = (Some (Inr (HRef 4)),
        sample_heap @ [HObj [(''_id'', HStr ''r1''), (''n'', HRef 6)],
                       HArr [HNum 5, HNum 7],
                       HObj [(''%allot'', HRef 5)]]) \<and>
   Inr (deep 8 (sample_heap @ [HObj [(''_id'', HStr ''r1''), (''n'', HRef 6)],
                               HArr [HNum 5, HNum 7],
                               HObj [(''%allot'', HRef 5)]]) (HRef 4))
     = encryptDeep (sample_encrypt (JNum 7)) (deep 8 sample_heap (HRef 1))"
  by code_simp

end
